theory Spec2Isabelle
  imports Complex_Main "HOL-Library.AList" "HOL-Library.Sublist" "HOL-Library.Monad_Syntax"
begin

section \<open>Text\<close>

text \<open>
  The tool reads stylesheets as JavaScript strings.  A string is modelled as a list of
  code units; the model covers text whose code units are below 256, so a \<^typ>\<open>char\<close>
  is one code unit.  The predicates below are the character classes of the regular
  expressions of \<^verbatim>\<open>src/index.ts\<close>: \<^verbatim>\<open>\d\<close>, \<^verbatim>\<open>\w\<close> and \<^verbatim>\<open>\s\<close> (which is also what
  \<^verbatim>\<open>trim\<close> strips; in this range: tab, line feed, vertical tab, form feed, carriage
  return, space and the no-break space).
\<close>

definition code :: "char \<Rightarrow> nat" where
  "code c = of_char c"

definition isDigit :: "char \<Rightarrow> bool" where
  "isDigit c = (48 \<le> code c \<and> code c \<le> 57)"

definition isUpper :: "char \<Rightarrow> bool" where
  "isUpper c = (65 \<le> code c \<and> code c \<le> 90)"

definition isLower :: "char \<Rightarrow> bool" where
  "isLower c = (97 \<le> code c \<and> code c \<le> 122)"

definition isWordChar :: "char \<Rightarrow> bool" where
  "isWordChar c = (isDigit c \<or> isUpper c \<or> isLower c \<or> c = CHR ''_'')"

definition isSpace :: "char \<Rightarrow> bool" where
  "isSpace c = (code c \<in> {9, 10, 11, 12, 13, 32, 160})"

definition NL :: char where
  "NL = CHR 0x0A"

text \<open>
  \<^verbatim>\<open>String.prototype.toLowerCase\<close> on one code unit: the letters A to Z, and in the
  upper half of the range the capital letters 0xC0 to 0xDE other than the
  multiplication sign 0xD7.
\<close>

definition lowerChar :: "char \<Rightarrow> char" where
  "lowerChar c =
     (if isUpper c \<or> (192 \<le> code c \<and> code c \<le> 222 \<and> code c \<noteq> 215)
      then char_of (code c + 32) else c)"

definition toLowerCase :: "string \<Rightarrow> string" where
  "toLowerCase s = map lowerChar s"

text \<open>
  The canonical form of a code unit under the \<^verbatim>\<open>i\<close> flag (without the \<^verbatim>\<open>u\<close> flag):
  its upper case, when that is a single code unit of the same half of the range.
\<close>

definition canon :: "char \<Rightarrow> char" where
  "canon c =
     (if isLower c \<or> (224 \<le> code c \<and> code c \<le> 254 \<and> code c \<noteq> 247)
      then char_of (code c - 32) else c)"

text \<open>\<^verbatim>\<open>trim\<close>, \<^verbatim>\<open>startsWith\<close>, \<^verbatim>\<open>includesStr\<close> and \<^verbatim>\<open>split\<close> on one separator.\<close>

definition trim :: "string \<Rightarrow> string" where
  "trim s = rev (dropWhile isSpace (rev (dropWhile isSpace s)))"

fun startsWith :: "string \<Rightarrow> string \<Rightarrow> bool" where
  "startsWith s [] = True"
| "startsWith [] (p # ps) = False"
| "startsWith (c # cs) (p # ps) = (c = p \<and> startsWith cs ps)"

fun includesStr :: "string \<Rightarrow> string \<Rightarrow> bool" where
  "includesStr [] p = (p = [])"
| "includesStr (c # cs) p = (startsWith (c # cs) p \<or> includesStr cs p)"

fun split :: "char \<Rightarrow> string \<Rightarrow> string list" where
  "split sep [] = [[]]"
| "split sep (c # cs) =
     (if c = sep then [] # split sep cs
      else (case split sep cs of [] \<Rightarrow> [[c]] | l # ls \<Rightarrow> (c # l) # ls))"

section \<open>Regular expressions\<close>

text \<open>
  The fragment of the ECMAScript pattern language that the source uses, with the
  backtracking semantics of the language: \<open>ends\<close> lists every state in which a match of
  the expression can end, in the order in which the matcher tries them (greedy
  quantifiers first try the longest repetition), so that the head of the list is the
  match that \<^verbatim>\<open>exec\<close> reports.
\<close>

datatype citem =
    CChar char              \<comment> \<open>one character\<close>
  | CRange char char        \<comment> \<open>\<^verbatim>\<open>a-z\<close>\<close>
  | CDigit                  \<comment> \<open>\<^verbatim>\<open>\d\<close>\<close>
  | CWord                   \<comment> \<open>\<^verbatim>\<open>\w\<close>\<close>
  | CSpace                  \<comment> \<open>\<^verbatim>\<open>\s\<close>\<close>

datatype re =
    Eps
  | Atom bool "citem list"  \<comment> \<open>a class \<^verbatim>\<open>[...]\<close>, or \<^verbatim>\<open>[^...]\<close> when the flag is set\<close>
  | Seq re re
  | Alt re re
  | Rep nat "nat option" re \<comment> \<open>greedy \<^verbatim>\<open>{m,n}\<close>; no upper bound when \<open>None\<close>\<close>
  | Group nat re            \<comment> \<open>capturing group number \<open>n\<close>\<close>
  | WordB                   \<comment> \<open>\<^verbatim>\<open>\b\<close>\<close>
  | Bol                     \<comment> \<open>\<^verbatim>\<open>^\<close>\<close>
  | NotBehind "citem list"  \<comment> \<open>\<^verbatim>\<open>(?<![...])\<close>\<close>

record mstate =
  prev :: "char option"           \<comment> \<open>the character before the current position\<close>
  acc :: string                   \<comment> \<open>the characters matched so far, last one first\<close>
  rest :: string                  \<comment> \<open>the input from the current position on\<close>
  caps :: "(nat \<times> string) list"   \<comment> \<open>the captures, latest first\<close>

fun inItem :: "bool \<Rightarrow> citem \<Rightarrow> char \<Rightarrow> bool" where
  "inItem ic (CChar x) c = (if ic then canon c = canon x else c = x)"
| "inItem ic (CRange lo hi) c =
     ((code lo \<le> code c \<and> code c \<le> code hi) \<or>
      (ic \<and> (code lo \<le> code (canon c) \<and> code (canon c) \<le> code hi \<or>
             code lo \<le> code (lowerChar c) \<and> code (lowerChar c) \<le> code hi)))"
| "inItem ic CDigit c = isDigit c"
| "inItem ic CWord c = isWordChar c"
| "inItem ic CSpace c = isSpace c"

definition inClass :: "bool \<Rightarrow> bool \<Rightarrow> citem list \<Rightarrow> char \<Rightarrow> bool" where
  "inClass ic neg items c = (list_ex (\<lambda>i. inItem ic i c) items \<noteq> neg)"

definition isWordOpt :: "char option \<Rightarrow> bool" where
  "isWordOpt p = (case p of None \<Rightarrow> False | Some c \<Rightarrow> isWordChar c)"

definition nextChar :: "mstate \<Rightarrow> char option" where
  "nextChar st = (case rest st of [] \<Rightarrow> None | c # cs \<Rightarrow> Some c)"

text \<open>
  Repetition.  \<open>exactly f k\<close> runs the mandatory iterations; \<open>many f n\<close> then tries up to
  \<open>n\<close> further ones, longest first, and (as the language prescribes) gives up an
  iteration that matched the empty string.
\<close>

primrec exactly :: "(mstate \<Rightarrow> mstate list) \<Rightarrow> nat \<Rightarrow> mstate \<Rightarrow> mstate list" where
  "exactly f 0 st = [st]"
| "exactly f (Suc k) st = concat (map (exactly f k) (f st))"

primrec many :: "(mstate \<Rightarrow> mstate list) \<Rightarrow> nat \<Rightarrow> mstate \<Rightarrow> mstate list" where
  "many f 0 st = [st]"
| "many f (Suc n) st =
     concat (map (many f n) (filter (\<lambda>st'. length (rest st') < length (rest st)) (f st))) @ [st]"

primrec ends :: "bool \<Rightarrow> re \<Rightarrow> mstate \<Rightarrow> mstate list" where
  "ends ic Eps st = [st]"
| "ends ic (Atom neg items) st =
     (case rest st of
        [] \<Rightarrow> []
      | c # cs \<Rightarrow>
          if inClass ic neg items c
          then [st\<lparr>prev := Some c, acc := c # acc st, rest := cs\<rparr>] else [])"
| "ends ic (Seq a b) st = concat (map (ends ic b) (ends ic a st))"
| "ends ic (Alt a b) st = ends ic a st @ ends ic b st"
| "ends ic (Rep lo hi a) st =
     concat (map (many (ends ic a)
                    (case hi of None \<Rightarrow> length (rest st) | Some h \<Rightarrow> h - lo))
                 (exactly (ends ic a) lo st))"
| "ends ic (Group n a) st =
     map (\<lambda>st'. st'\<lparr>acc := acc st' @ acc st, caps := (n, rev (acc st')) # caps st'\<rparr>)
         (ends ic a (st\<lparr>acc := []\<rparr>))"
| "ends ic WordB st = (if isWordOpt (prev st) \<noteq> isWordOpt (nextChar st) then [st] else [])"
| "ends ic Bol st = (if prev st = None then [st] else [])"
| "ends ic (NotBehind items) st =
     (case prev st of
        None \<Rightarrow> [st]
      | Some c \<Rightarrow> if inClass ic False items c then [] else [st])"

text \<open>
  A syntactic criterion: every match of an expression that is \<open>consuming\<close> takes at
  least one character.
\<close>

primrec consuming :: "re \<Rightarrow> bool" where
  "consuming Eps = False"
| "consuming (Atom neg items) = True"
| "consuming (Seq a b) = (consuming a \<or> consuming b)"
| "consuming (Alt a b) = (consuming a \<and> consuming b)"
| "consuming (Rep lo hi a) = (0 < lo \<and> consuming a)"
| "consuming (Group n a) = consuming a"
| "consuming WordB = False"
| "consuming Bol = False"
| "consuming (NotBehind items) = False"

text \<open>Abbreviations for writing the patterns of the source.\<close>

definition chr :: "char \<Rightarrow> re" where
  "chr c = Atom False [CChar c]"

definition str :: "string \<Rightarrow> re" where
  "str s = foldr (\<lambda>c r. Seq (chr c) r) s Eps"

definition seqs :: "re list \<Rightarrow> re" where
  "seqs rs = foldr Seq rs Eps"

fun alts :: "re list \<Rightarrow> re" where
  "alts [] = Atom False []"
| "alts [r] = r"
| "alts (r # rs) = Alt r (alts rs)"

definition Star :: "re \<Rightarrow> re" where
  "Star r = Rep 0 None r"

definition Plus :: "re \<Rightarrow> re" where
  "Plus r = Rep 1 None r"

definition Opt :: "re \<Rightarrow> re" where
  "Opt r = Rep 0 (Some 1) r"

text \<open>
  A match, as the array that \<^verbatim>\<open>exec\<close> returns: the matched text and the captures.
  \<open>group m n\<close> is \<^verbatim>\<open>m[n]\<close> for a group that took part in the match.
\<close>

record rmatch =
  whole :: string
  groups :: "(nat \<times> string) list"

definition start :: "char option \<Rightarrow> string \<Rightarrow> mstate" where
  "start p s = \<lparr>prev = p, acc = [], rest = s, caps = []\<rparr>"

definition toMatch :: "mstate \<Rightarrow> rmatch" where
  "toMatch st = \<lparr>whole = rev (acc st), groups = caps st\<rparr>"

definition group :: "rmatch \<Rightarrow> nat \<Rightarrow> string" where
  "group m n = (case map_of (groups m) n of None \<Rightarrow> [] | Some g \<Rightarrow> g)"

text \<open>
  \<^verbatim>\<open>regex.exec(s)\<close> without the \<^verbatim>\<open>g\<close> flag (also behind \<^verbatim>\<open>test\<close> and \<^verbatim>\<open>match\<close>): the
  first position, from the left, at which the expression matches.
\<close>

fun execFirst :: "bool \<Rightarrow> re \<Rightarrow> char option \<Rightarrow> string \<Rightarrow> rmatch option" where
  "execFirst ic r p s =
     (case ends ic r (start p s) of
        st # _ \<Rightarrow> Some (toMatch st)
      | [] \<Rightarrow> (case s of [] \<Rightarrow> None | c # cs \<Rightarrow> execFirst ic r (Some c) cs))"

definition test :: "bool \<Rightarrow> re \<Rightarrow> string \<Rightarrow> bool" where
  "test ic r s = (execFirst ic r None s \<noteq> None)"

text \<open>
  The loop \<^verbatim>\<open>while ((match = regex.exec(line)) !== null) { ... }\<close> over an expression
  with the \<^verbatim>\<open>g\<close> flag: the matches it visits, in order.  Each \<^verbatim>\<open>exec\<close> searches from
  \<^verbatim>\<open>lastIndex\<close>, the end of the previous match.  A match of the empty string leaves
  \<^verbatim>\<open>lastIndex\<close> where it is, and the loop then never ends: the result is \<open>None\<close>.
\<close>

fun execAll :: "bool \<Rightarrow> re \<Rightarrow> char option \<Rightarrow> string \<Rightarrow> rmatch list option" where
  "execAll ic r p s =
     (case ends ic r (start p s) of
        st # _ \<Rightarrow>
          if length (rest st) < length s
          then map_option (\<lambda>ms. toMatch st # ms) (execAll ic r (prev st) (rest st))
          else None
      | [] \<Rightarrow> (case s of [] \<Rightarrow> Some [] | c # cs \<Rightarrow> execAll ic r (Some c) cs))"

text \<open>
  \<^verbatim>\<open>s.replace(regex, template)\<close> and \<^verbatim>\<open>s.match(regex)\<close> for an expression with the \<^verbatim>\<open>g\<close>
  flag.  Both visit the matches from left to right and step over one character after a
  match of the empty string.  \<open>expand\<close> is the substitution that \<^verbatim>\<open>replace\<close> performs in
  its template: \<^verbatim>\<open>$$\<close> is a dollar sign, \<^verbatim>\<open>$&\<close> the matched text, \<^verbatim>\<open>$`\<close> the text before
  the match and \<^verbatim>\<open>$'\<close> the text after it.  No expression that the source passes to
  \<^verbatim>\<open>replace\<close> has a capturing group, so \<^verbatim>\<open>$1\<close> to \<^verbatim>\<open>$99\<close> stand for themselves.
\<close>

fun expand :: "string \<Rightarrow> string \<Rightarrow> string \<Rightarrow> string \<Rightarrow> string" where
  "expand [] m pre post = []"
| "expand [c] m pre post = [c]"
| "expand (c # d # t) m pre post =
     (if c = CHR ''$'' then
        (if d = CHR ''$'' then CHR ''$'' # expand t m pre post
         else if d = CHR ''&'' then m @ expand t m pre post
         else if d = CHR 0x60 then pre @ expand t m pre post
         else if d = CHR 0x27 then post @ expand t m pre post
         else c # expand (d # t) m pre post)
      else c # expand (d # t) m pre post)"

definition lastOpt :: "string \<Rightarrow> char option" where
  "lastOpt s = (if s = [] then None else Some (last s))"

fun replaceAll :: "bool \<Rightarrow> re \<Rightarrow> string \<Rightarrow> string \<Rightarrow> string \<Rightarrow> string" where
  "replaceAll ic r t pre s =
     (case ends ic r (start (lastOpt pre) s) of
        st # _ \<Rightarrow>
          if length (rest st) < length s
          then expand t (rev (acc st)) pre (rest st) @
               replaceAll ic r t (pre @ rev (acc st)) (rest st)
          else expand t [] pre s @
               (case s of [] \<Rightarrow> [] | c # cs \<Rightarrow> c # replaceAll ic r t (pre @ [c]) cs)
      | [] \<Rightarrow> (case s of [] \<Rightarrow> [] | c # cs \<Rightarrow> c # replaceAll ic r t (pre @ [c]) cs))"

fun matchAll :: "bool \<Rightarrow> re \<Rightarrow> char option \<Rightarrow> string \<Rightarrow> string list" where
  "matchAll ic r p s =
     (case ends ic r (start p s) of
        st # _ \<Rightarrow>
          if length (rest st) < length s
          then rev (acc st) # matchAll ic r (prev st) (rest st)
          else [] # (case s of [] \<Rightarrow> [] | c # cs \<Rightarrow> matchAll ic r (Some c) cs)
      | [] \<Rightarrow> (case s of [] \<Rightarrow> [] | c # cs \<Rightarrow> matchAll ic r (Some c) cs))"

text \<open>
  \<^verbatim>\<open>new RegExp(source, "g")\<close> for a source string built at run time.  A character that
  is not a syntax character stands for itself, and so does a syntax character after a
  backslash; every other construct lies outside the fragment read here (\<open>None\<close>).
\<close>

definition BSLASH :: char where
  "BSLASH = CHR 0x5C"

definition syntaxChars :: string where
  "syntaxChars = ''^$.*+?()[]{}|'' @ [BSLASH]"

fun parsePattern :: "string \<Rightarrow> re option" where
  "parsePattern [] = Some Eps"
| "parsePattern [c] = (if c \<in> set syntaxChars then None else Some (Seq (chr c) Eps))"
| "parsePattern (c # d # t) =
     (if c = BSLASH then
        (if d \<in> set syntaxChars then map_option (Seq (chr d)) (parsePattern t) else None)
      else if c \<in> set syntaxChars then None
      else map_option (Seq (chr c)) (parsePattern (d # t)))"

section \<open>The patterns of the source\<close>

definition digit :: re where
  "digit = Atom False [CDigit]"

definition ws :: re where
  "ws = Star (Atom False [CSpace])"

definition digitOrDot :: re where
  "digitOrDot = Atom False [CDigit, CChar (CHR ''.'')]"

text \<open>\<^verbatim>\<open>/#(?:[0-9a-fA-F]{3,8})\b/g\<close>\<close>

definition hexDigit :: re where
  "hexDigit = Atom False [CRange (CHR ''0'') (CHR ''9''), CRange (CHR ''a'') (CHR ''f''),
                          CRange (CHR ''A'') (CHR ''F'')]"

definition COLOR_HEX :: re where
  "COLOR_HEX = seqs [chr (CHR ''#''), Rep 3 (Some 8) hexDigit, WordB]"

text \<open>\<^verbatim>\<open>/rgba?\(\s*\d+\s*,\s*\d+\s*,\s*\d+\s*(?:,\s*[\d.]+\s*)?\)/g\<close>\<close>

definition COLOR_RGB :: re where
  "COLOR_RGB = seqs [str ''rgb'', Opt (chr (CHR ''a'')), chr (CHR ''(''),
                     ws, Plus digit, ws, chr (CHR '',''),
                     ws, Plus digit, ws, chr (CHR '',''),
                     ws, Plus digit, ws,
                     Opt (seqs [chr (CHR '',''), ws, Plus digitOrDot, ws]),
                     chr (CHR '')'')]"

text \<open>\<^verbatim>\<open>/hsla?\(\s*\d+\s*,\s*[\d.]+%\s*,\s*[\d.]+%\s*(?:,\s*[\d.]+\s*)?\)/g\<close>\<close>

definition COLOR_HSL :: re where
  "COLOR_HSL = seqs [str ''hsl'', Opt (chr (CHR ''a'')), chr (CHR ''(''),
                     ws, Plus digit, ws, chr (CHR '',''),
                     ws, Plus digitOrDot, chr (CHR ''%''), ws, chr (CHR '',''),
                     ws, Plus digitOrDot, chr (CHR ''%''), ws,
                     Opt (seqs [chr (CHR '',''), ws, Plus digitOrDot, ws]),
                     chr (CHR '')'')]"

text \<open>
  \<^verbatim>\<open>/\b(red|blue|green|orange|purple|pink|brown|gray|grey|black|white|yellow|cyan|\<close>
  \<^verbatim>\<open>magenta|navy|teal|olive|maroon|aqua|lime|silver|fuchsia)\b/gi\<close>
\<close>

definition COLOR_NAMED :: re where
  "COLOR_NAMED =
     seqs [WordB,
           Group 1 (alts (map str
             [''red'', ''blue'', ''green'', ''orange'', ''purple'', ''pink'', ''brown'',
              ''gray'', ''grey'', ''black'', ''white'', ''yellow'', ''cyan'', ''magenta'',
              ''navy'', ''teal'', ''olive'', ''maroon'', ''aqua'', ''lime'', ''silver'',
              ''fuchsia''])),
           WordB]"

text \<open>\<^verbatim>\<open>/(?<!\w)(\d+(?:\.\d+)?)(px|rem|em|vh|vw|%)\b/g\<close>\<close>

definition SPACING :: re where
  "SPACING =
     seqs [NotBehind [CWord],
           Group 1 (seqs [Plus digit, Opt (seqs [chr (CHR ''.''), Plus digit])]),
           Group 2 (alts (map str [''px'', ''rem'', ''em'', ''vh'', ''vw'', ''%''])),
           WordB]"

text \<open>\<^verbatim>\<open>/font-family\s*:\s*([^;]+)/g\<close>\<close>

definition FONT_FAMILY :: re where
  "FONT_FAMILY =
     seqs [str ''font-family'', ws, chr (CHR '':''), ws,
           Group 1 (Plus (Atom True [CChar (CHR '';'')]))]"

text \<open>The patterns written in place in \<^verbatim>\<open>extractValues\<close>.\<close>

definition VAR_REF :: re where
  \<comment> \<open>\<^verbatim>\<open>/var\(/\<close>\<close>
  "VAR_REF = str ''var(''"

definition PROPERTY :: re where
  \<comment> \<open>\<^verbatim>\<open>/^\s*([\w-]+)\s*:/\<close>\<close>
  "PROPERTY = seqs [Bol, ws, Group 1 (Plus (Atom False [CWord, CChar (CHR ''-'')])), ws,
                    chr (CHR '':'')]"

definition COLOR_PROPERTY :: re where
  \<comment> \<open>\<^verbatim>\<open>/color|background|border|shadow|outline/i\<close>\<close>
  "COLOR_PROPERTY = alts (map str [''color'', ''background'', ''border'', ''shadow'', ''outline''])"

definition LAYOUT_PROPERTY :: re where
  \<comment> \<open>\<^verbatim>\<open>/margin|padding|gap|width|height|top|left|right|bottom|border-radius|font-size/i\<close>\<close>
  "LAYOUT_PROPERTY =
     alts (map str [''margin'', ''padding'', ''gap'', ''width'', ''height'', ''top'', ''left'',
                    ''right'', ''bottom'', ''border-radius'', ''font-size''])"

section \<open>The data model\<close>

text \<open>
  \<^verbatim>\<open>ExtractedValue\<close> and the entries of its \<^verbatim>\<open>locations\<close>.  A JavaScript \<^verbatim>\<open>Map\<close> keeps its
  keys in insertion order, and \<^verbatim>\<open>set\<close> on a key that is present replaces the entry in
  place: this is an association list under \<^const>\<open>AList.update\<close>.
\<close>

datatype vtype = Color | Spacing | Font

record Occurrence =
  loc_file :: string
  loc_line :: nat
  loc_property :: string

record ExtractedValue =
  ev_value :: string
  ev_type :: vtype
  locations :: "Occurrence list"

type_synonym valueMap = "(string \<times> ExtractedValue) list"

definition addValue ::
  "valueMap \<Rightarrow> string \<Rightarrow> vtype \<Rightarrow> string \<Rightarrow> nat \<Rightarrow> string \<Rightarrow> valueMap" where
  "addValue m v t f l p =
     (case map_of m v of
        Some existing \<Rightarrow>
          AList.update v
            (existing\<lparr>locations :=
               locations existing @ [\<lparr>loc_file = f, loc_line = l, loc_property = p\<rparr>]\<rparr>) m
      | None \<Rightarrow>
          AList.update v
            \<lparr>ev_value = v, ev_type = t,
             locations = [\<lparr>loc_file = f, loc_line = l, loc_property = p\<rparr>]\<rparr> m)"

definition addAll ::
  "vtype \<Rightarrow> string \<Rightarrow> nat \<Rightarrow> string \<Rightarrow> string list \<Rightarrow> valueMap \<Rightarrow> valueMap" where
  "addAll t f l p vs m = foldl (\<lambda>m' v. addValue m' v t f l p) m vs"

section \<open>extractValues\<close>

text \<open>
  \<^verbatim>\<open>parseFloat\<close> on the first capture of \<open>SPACING\<close>, which is a run of digits with an
  optional fraction: the number it denotes.  The source compares the result, a double,
  with 0, 1, 50 and 100; \<open>numIs0\<close> and the like say when the nearest double (ties to
  even) is that number.
\<close>

definition digitVal :: "char \<Rightarrow> nat" where
  "digitVal c = code c - 48"

definition natOf :: "string \<Rightarrow> nat" where
  "natOf ds = foldl (\<lambda>n c. 10 * n + digitVal c) 0 ds"

definition parseFloat :: "string \<Rightarrow> rat" where
  "parseFloat s =
     (let ip = takeWhile isDigit s; r = dropWhile isDigit s;
          fp = (case r of [] \<Rightarrow> [] | c # cs \<Rightarrow> if c = CHR ''.'' then takeWhile isDigit cs else [])
      in of_nat (natOf ip) + of_nat (natOf fp) / 10 ^ length fp)"

definition numIs0 :: "rat \<Rightarrow> bool" where
  "numIs0 q = (q \<le> 1 / 2 ^ 1075)"

definition numIs1 :: "rat \<Rightarrow> bool" where
  "numIs1 q = (1 - 1 / 2 ^ 54 \<le> q \<and> q \<le> 1 + 1 / 2 ^ 53)"

definition numIs50 :: "rat \<Rightarrow> bool" where
  "numIs50 q = (50 - 1 / 2 ^ 48 \<le> q \<and> q \<le> 50 + 1 / 2 ^ 48)"

definition numIs100 :: "rat \<Rightarrow> bool" where
  "numIs100 q = (100 - 1 / 2 ^ 47 \<le> q \<and> q \<le> 100 + 1 / 2 ^ 47)"

text \<open>The types of value that a scope lets \<^verbatim>\<open>extractValues\<close> record.\<close>

definition enabled :: "string \<Rightarrow> vtype \<Rightarrow> bool" where
  "enabled scope t =
     (case t of
        Color \<Rightarrow> scope = ''colors'' \<or> scope = ''all''
      | Spacing \<Rightarrow> scope = ''spacing'' \<or> scope = ''all''
      | Font \<Rightarrow> scope = ''all'')"

text \<open>The test at the head of the loop body, and the property name of a line.\<close>

definition skipLine :: "string \<Rightarrow> bool" where
  "skipLine l =
     (startsWith (trim l) ''--'' \<or> startsWith (trim l) ''/*'' \<or>
      startsWith (trim l) ''*'' \<or> startsWith (trim l) ''//'')"

definition hasVarRef :: "string \<Rightarrow> bool" where
  "hasVarRef l = test False VAR_REF l"

definition propertyOf :: "string \<Rightarrow> string" where
  "propertyOf l =
     (case execFirst False PROPERTY None l of
        Some m \<Rightarrow> group m 1
      | None \<Rightarrow> ''unknown'')"

text \<open>
  One function for each \<^verbatim>\<open>while\<close> loop of the body: the values that the loop passes to
  \<^verbatim>\<open>addValue\<close>, in order.
\<close>

definition collapseSpaces :: "string \<Rightarrow> string \<Rightarrow> string" where
  \<comment> \<open>\<^verbatim>\<open>s.replace(/\s+/g, t)\<close>\<close>
  "collapseSpaces t s = replaceAll False (Plus (Atom False [CSpace])) t [] s"

definition hexValues :: "string \<Rightarrow> string list option" where
  "hexValues l =
     map_option (map (\<lambda>m. toLowerCase (whole m))) (execAll False COLOR_HEX None l)"

definition rgbValues :: "string \<Rightarrow> string list option" where
  "rgbValues l =
     map_option (map (\<lambda>m. collapseSpaces '' '' (whole m))) (execAll False COLOR_RGB None l)"

definition hslValues :: "string \<Rightarrow> string list option" where
  "hslValues l =
     map_option (map (\<lambda>m. collapseSpaces '' '' (whole m))) (execAll False COLOR_HSL None l)"

definition namedValues :: "string \<Rightarrow> string \<Rightarrow> string list option" where
  "namedValues l p =
     (if test True COLOR_PROPERTY p
      then map_option (map (\<lambda>m. toLowerCase (whole m))) (execAll True COLOR_NAMED None l)
      else Some [])"

definition spacingKept :: "string \<Rightarrow> rmatch \<Rightarrow> bool" where
  "spacingKept p m =
     (let num = parseFloat (group m 1); unit = group m 2
      in \<not> (numIs0 num \<or> (unit = ''%'' \<and> (numIs100 num \<or> numIs50 num))) \<and>
         \<not> (unit = ''px'' \<and> numIs1 num) \<and>
         test True LAYOUT_PROPERTY p)"

definition spacingValues :: "string \<Rightarrow> string \<Rightarrow> string list option" where
  "spacingValues l p =
     map_option (\<lambda>ms. map (\<lambda>m. group m 1 @ group m 2) (filter (spacingKept p) ms))
       (execAll False SPACING None l)"

definition fontValues :: "string \<Rightarrow> string list option" where
  "fontValues l =
     map_option (\<lambda>ms. filter (\<lambda>v. length v > 2) (map (\<lambda>m. trim (group m 1)) ms))
       (execAll False FONT_FAMILY None l)"

text \<open>
  The body of the \<^verbatim>\<open>for\<close> loop for the line with index \<open>lineNum\<close>.  \<open>None\<close>: one of the
  \<^verbatim>\<open>while\<close> loops never ends.
\<close>

definition extractLine ::
  "string \<Rightarrow> string \<Rightarrow> nat \<Rightarrow> string \<Rightarrow> valueMap \<Rightarrow> valueMap option" where
  "extractLine scope filePath lineNum l m =
     (if skipLine l then Some m
      else if hasVarRef l then Some m
      else
        let property = propertyOf l in
        do {
          m1 \<leftarrow>
            (if scope = ''colors'' \<or> scope = ''all'' then
               do {
                 hex \<leftarrow> hexValues l;
                 rgb \<leftarrow> rgbValues l;
                 hsl \<leftarrow> hslValues l;
                 named \<leftarrow> namedValues l property;
                 Some (addAll Color filePath (lineNum + 1) property named
                        (addAll Color filePath (lineNum + 1) property hsl
                          (addAll Color filePath (lineNum + 1) property rgb
                            (addAll Color filePath (lineNum + 1) property hex m))))
               }
             else Some m);
          m2 \<leftarrow>
            (if scope = ''spacing'' \<or> scope = ''all'' then
               do {
                 sp \<leftarrow> spacingValues l property;
                 Some (addAll Spacing filePath (lineNum + 1) property sp m1)
               }
             else Some m1);
          (if scope = ''all'' then
             do {
               fonts \<leftarrow> fontValues l;
               Some (addAll Font filePath (lineNum + 1) property fonts m2)
             }
           else Some m2)
        })"

fun extractLines ::
  "string \<Rightarrow> string \<Rightarrow> nat \<Rightarrow> string list \<Rightarrow> valueMap \<Rightarrow> valueMap option" where
  "extractLines scope filePath lineNum [] m = Some m"
| "extractLines scope filePath lineNum (l # ls) m =
     (case extractLine scope filePath lineNum l m of
        None \<Rightarrow> None
      | Some m' \<Rightarrow> extractLines scope filePath (lineNum + 1) ls m')"

definition extractValues :: "string \<Rightarrow> string \<Rightarrow> string \<Rightarrow> valueMap option" where
  "extractValues content filePath scope =
     extractLines scope filePath 0 (split NL content) []"

section \<open>Names and the root block\<close>

text \<open>The decimal numeral of a number, as a template literal renders it.\<close>

fun showNat :: "nat \<Rightarrow> string" where
  "showNat n =
     (if n < 10 then [char_of (48 + n)]
      else showNat (n div 10) @ [char_of (48 + n mod 10)])"

declare showNat.simps [simp del]

definition typeName :: "vtype \<Rightarrow> string" where
  "typeName t = (case t of Color \<Rightarrow> ''color'' | Spacing \<Rightarrow> ''spacing'' | Font \<Rightarrow> ''font'')"

definition QUOTES :: re where
  \<comment> \<open>\<^verbatim>\<open>/["']/g\<close>\<close>
  "QUOTES = Atom False [CChar (CHR 0x22), CChar (CHR 0x27)]"

definition NON_ALNUM :: re where
  \<comment> \<open>\<^verbatim>\<open>/[^a-zA-Z0-9]/g\<close>\<close>
  "NON_ALNUM = Atom True [CRange (CHR ''a'') (CHR ''z''), CRange (CHR ''A'') (CHR ''Z''),
                          CRange (CHR ''0'') (CHR ''9'')]"

text \<open>
  \<^verbatim>\<open>generateVarName\<close>.  Its last branch, for a type that is none of the three, cannot be
  reached from \<^verbatim>\<open>main\<close> and has no counterpart here.
\<close>

definition generateVarName :: "string \<Rightarrow> vtype \<Rightarrow> string \<Rightarrow> nat \<Rightarrow> string" where
  "generateVarName pfx t v index =
     (let name = ''--'' @ pfx @ ''-'' @ typeName t in
      case t of
        Color \<Rightarrow>
          (let hex = toLowerCase v in
           if hex = ''#fff'' \<or> hex = ''#ffffff'' then ''--'' @ pfx @ ''-color-white''
           else if hex = ''#000'' \<or> hex = ''#000000'' then ''--'' @ pfx @ ''-color-black''
           else name @ ''-'' @ showNat (index + 1))
      | Spacing \<Rightarrow> name @ ''-'' @ replaceAll False NON_ALNUM ''-'' [] v
      | Font \<Rightarrow>
          (let cleaned =
                 collapseSpaces ''-''
                   (toLowerCase (trim (hd (split (CHR '','') (replaceAll False QUOTES [] [] v)))))
           in name @ ''-'' @ cleaned))"

text \<open>
  The naming loop of \<^verbatim>\<open>main\<close>: \<^verbatim>\<open>counters[info.type]++\<close> for every selected value, then
  \<^verbatim>\<open>generateVarName\<close> with the counter's value before the increment.
\<close>

record counters =
  n_color :: nat
  n_spacing :: nat
  n_font :: nat

definition counterOf :: "counters \<Rightarrow> vtype \<Rightarrow> nat" where
  "counterOf cs t = (case t of Color \<Rightarrow> n_color cs | Spacing \<Rightarrow> n_spacing cs | Font \<Rightarrow> n_font cs)"

definition bump :: "counters \<Rightarrow> vtype \<Rightarrow> counters" where
  "bump cs t =
     (case t of
        Color \<Rightarrow> cs\<lparr>n_color := n_color cs + 1\<rparr>
      | Spacing \<Rightarrow> cs\<lparr>n_spacing := n_spacing cs + 1\<rparr>
      | Font \<Rightarrow> cs\<lparr>n_font := n_font cs + 1\<rparr>)"

record naming =
  varMap :: "(string \<times> string) list"     \<comment> \<open>value to name\<close>
  rootVars :: "(string \<times> string) list"   \<comment> \<open>name to value\<close>
  counts :: counters

definition nameStep :: "string \<Rightarrow> naming \<Rightarrow> string \<times> ExtractedValue \<Rightarrow> naming" where
  "nameStep pfx st e =
     (let idx = counterOf (counts st) (ev_type (snd e));
          varName = generateVarName pfx (ev_type (snd e)) (fst e) idx
      in \<lparr>varMap = AList.update (fst e) varName (varMap st),
          rootVars = AList.update varName (fst e) (rootVars st),
          counts = bump (counts st) (ev_type (snd e))\<rparr>)"

definition nameAll :: "string \<Rightarrow> valueMap \<Rightarrow> naming" where
  "nameAll pfx repeated =
     foldl (nameStep pfx)
       \<lparr>varMap = [], rootVars = [], counts = \<lparr>n_color = 0, n_spacing = 0, n_font = 0\<rparr>\<rparr>
       repeated"

text \<open>\<^verbatim>\<open>generateRootBlock\<close>; \<open>joinLines\<close> is \<^verbatim>\<open>lines.join("\n")\<close>.\<close>

fun joinLines :: "string list \<Rightarrow> string" where
  "joinLines [] = []"
| "joinLines [l] = l"
| "joinLines (l # ls) = l @ NL # joinLines ls"

definition declLine :: "string \<times> string \<Rightarrow> string" where
  "declLine e = ''  '' @ fst e @ '': '' @ snd e @ '';''"

definition generateRootBlock :: "(string \<times> string) list \<Rightarrow> string \<Rightarrow> string" where
  "generateRootBlock variables pfx =
     (let isColor = (\<lambda>e. includesStr (fst e) (''-'' @ pfx @ ''-color''));
          isSpacing = (\<lambda>e. includesStr (fst e) (''-'' @ pfx @ ''-spacing''));
          isFont = (\<lambda>e. includesStr (fst e) (''-'' @ pfx @ ''-font''));
          color = filter isColor variables;
          spacing = filter (\<lambda>e. \<not> isColor e \<and> isSpacing e) variables;
          font = filter (\<lambda>e. \<not> isColor e \<and> \<not> isSpacing e \<and> isFont e) variables
      in joinLines
           (['':root {''] @
            (if color \<noteq> [] then ''  /* Colors */'' # map declLine color else []) @
            (if spacing \<noteq> [] then ''  /* Spacing */'' # map declLine spacing else []) @
            (if font \<noteq> [] then ''  /* Fonts */'' # map declLine font else []) @
            [''}'']))"

section \<open>main\<close>

text \<open>
  The options that the pipeline reads, and the file system as a map from paths to
  contents.  \<^verbatim>\<open>min\<close> is the integer that \<^verbatim>\<open>parseArgs\<close> produced; the model covers the
  runs in which \<^verbatim>\<open>parseInt\<close> found a number there.
\<close>

record CliOptions =
  opt_dryRun :: bool
  opt_min :: int
  opt_scope :: string
  opt_prefix :: string
  opt_json :: bool

type_synonym files = "string \<rightharpoonup> string"

datatype error =
    ReadError string     \<comment> \<open>\<^verbatim>\<open>readFileSync\<close> throws\<close>
  | NeverReturns         \<comment> \<open>a matching loop does not end\<close>
  | PatternNotRead       \<comment> \<open>\<^verbatim>\<open>new RegExp\<close> on a source outside the fragment of \<open>parsePattern\<close>\<close>

text \<open>The merge of one file's values into \<^verbatim>\<open>allValues\<close>, and the loop over the files.\<close>

definition mergeEntry :: "valueMap \<Rightarrow> string \<times> ExtractedValue \<Rightarrow> valueMap" where
  "mergeEntry allValues e =
     (case map_of allValues (fst e) of
        Some existing \<Rightarrow>
          AList.update (fst e)
            (existing\<lparr>locations := locations existing @ locations (snd e)\<rparr>) allValues
      | None \<Rightarrow> AList.update (fst e) (snd e) allValues)"

fun extractAll :: "string \<Rightarrow> files \<Rightarrow> string list \<Rightarrow> valueMap \<Rightarrow> error + valueMap" where
  "extractAll scope fs [] allValues = Inr allValues"
| "extractAll scope fs (f # cssFiles) allValues =
     (case fs f of
        None \<Rightarrow> Inl (ReadError f)
      | Some content \<Rightarrow>
          (case extractValues content f scope of
             None \<Rightarrow> Inl NeverReturns
           | Some fileValues \<Rightarrow>
               extractAll scope fs cssFiles (foldl mergeEntry allValues fileValues)))"

text \<open>The filter by minimum occurrences.\<close>

definition selectRepeated :: "int \<Rightarrow> valueMap \<Rightarrow> valueMap" where
  "selectRepeated mn allValues =
     foldl (\<lambda>repeated e.
              if mn \<le> int (length (locations (snd e)))
              then AList.update (fst e) (snd e) repeated else repeated)
       [] allValues"

text \<open>
  The replacement loop over \<^verbatim>\<open>varMap\<close> for the content of one file: the new content, the
  number of replacements and the \<^verbatim>\<open>modified\<close> flag.
\<close>

definition ESCAPED :: re where
  \<comment> \<open>\<^verbatim>\<open>/[.*+?^${}()|[\]\\]/g\<close>\<close>
  "ESCAPED = Atom False (map CChar (''.*+?^${}()|[]'' @ [BSLASH]))"

definition escapeRegex :: "string \<Rightarrow> string" where
  \<comment> \<open>\<^verbatim>\<open>value.replace(/[.*+?^${}()|[\]\\]/g, "\\$&")\<close>\<close>
  "escapeRegex v = replaceAll False ESCAPED (BSLASH # ''$&'') [] v"

definition replaceValue ::
  "string \<times> nat \<times> bool \<Rightarrow> string \<times> string \<Rightarrow> error + (string \<times> nat \<times> bool)" where
  "replaceValue st e =
     (case st of (content, tot, modified) \<Rightarrow>
        (case parsePattern (escapeRegex (fst e)) of
           None \<Rightarrow> Inl PatternNotRead
         | Some regex \<Rightarrow>
             (let matches = matchAll False regex None content in
              if matches \<noteq> []
              then Inr (replaceAll False regex (''var('' @ snd e @ '')'') [] content,
                        tot + length matches, True)
              else Inr (content, tot, modified))))"

fun replaceValues ::
  "(string \<times> string) list \<Rightarrow> string \<times> nat \<times> bool \<Rightarrow> error + (string \<times> nat \<times> bool)" where
  "replaceValues [] st = Inr st"
| "replaceValues (e # es) st =
     (case replaceValue st e of Inl err \<Rightarrow> Inl err | Inr st' \<Rightarrow> replaceValues es st')"

text \<open>
  The loop over the files of the branch that applies the changes: each file is read
  again, rewritten, given the root block when its new content has no \<^verbatim>\<open>:root\<close>, and
  written back when a replacement was made.
\<close>

definition withRootBlock :: "string \<Rightarrow> string \<Rightarrow> string" where
  "withRootBlock rootBlock content =
     (if \<not> includesStr content '':root'' then rootBlock @ [NL, NL] @ content else content)"

fun applyAll ::
  "(string \<times> string) list \<Rightarrow> string \<Rightarrow> string list \<Rightarrow> files \<Rightarrow> nat \<Rightarrow> error + (files \<times> nat)" where
  "applyAll vm rootBlock [] fs tot = Inr (fs, tot)"
| "applyAll vm rootBlock (f # cssFiles) fs tot =
     (case fs f of
        None \<Rightarrow> Inl (ReadError f)
      | Some content \<Rightarrow>
          (case replaceValues vm (content, tot, False) of
             Inl err \<Rightarrow> Inl err
           | Inr (content', tot', modified) \<Rightarrow>
               applyAll vm rootBlock cssFiles
                 (if modified then fs(f \<mapsto> withRootBlock rootBlock content') else fs) tot'))"

text \<open>
  \<^verbatim>\<open>main\<close> from the list of the style sheets found on.  The outcome carries what the run
  prints: the selected values, their names and the root block, and in the applying
  branch the total of the replacements.
\<close>

record report =
  rep_selected :: valueMap
  rep_names :: "(string \<times> string) list"
  rep_rootBlock :: string

datatype outcome =
    NoFiles                    \<comment> \<open>exit code 1\<close>
  | NoRepeated                 \<comment> \<open>exit code 0\<close>
  | JsonOut report
  | DryRun report
  | Applied report nat

definition main :: "CliOptions \<Rightarrow> string list \<Rightarrow> files \<Rightarrow> error + (outcome \<times> files)" where
  "main opts cssFiles fs =
     (if cssFiles = [] then Inr (NoFiles, fs)
      else
        case extractAll (opt_scope opts) fs cssFiles [] of
          Inl err \<Rightarrow> Inl err
        | Inr allValues \<Rightarrow>
            (let repeated = selectRepeated (opt_min opts) allValues in
             if repeated = [] then Inr (NoRepeated, fs)
             else
               let nm = nameAll (opt_prefix opts) repeated;
                   rep = \<lparr>rep_selected = repeated, rep_names = varMap nm,
                          rep_rootBlock = generateRootBlock (rootVars nm) (opt_prefix opts)\<rparr>
               in if opt_json opts then Inr (JsonOut rep, fs)
                  else if opt_dryRun opts then Inr (DryRun rep, fs)
                  else
                    (case applyAll (varMap nm) (rep_rootBlock rep) cssFiles fs 0 of
                       Inl err \<Rightarrow> Inl err
                     | Inr (fs', tot) \<Rightarrow> Inr (Applied rep tot, fs'))))"

definition replacements :: "outcome \<Rightarrow> nat option" where
  "replacements out = (case out of Applied r n \<Rightarrow> Some n | _ \<Rightarrow> None)"

definition extends :: "ExtractedValue \<Rightarrow> ExtractedValue \<Rightarrow> bool" where
  "extends e e' =
     (ev_value e' = ev_value e \<and> ev_type e' = ev_type e \<and> prefix (locations e) (locations e'))"

definition fileOccurrences :: "string \<Rightarrow> files \<Rightarrow> string \<Rightarrow> string \<Rightarrow> Occurrence list" where
  "fileOccurrences scope fs k f =
     (case fs f of
        None \<Rightarrow> []
      | Some content \<Rightarrow>
          (case extractValues content f scope of
             None \<Rightarrow> []
           | Some fileValues \<Rightarrow>
               (case map_of fileValues k of None \<Rightarrow> [] | Some e \<Rightarrow> locations e)))"

definition inOrder :: "string \<Rightarrow> nat \<Rightarrow> valueMap \<Rightarrow> bool" where
  "inOrder f j m =
     (\<forall>e \<in> set m. (\<forall>x \<in> set (locations (snd e)). loc_file x = f \<and> loc_line x \<le> j) \<and>
                   sorted (map loc_line (locations (snd e))))"

definition consume :: "string \<Rightarrow> mstate \<Rightarrow> mstate" where
  "consume xs st =
     st\<lparr>prev := (if xs = [] then prev st else Some (last xs)),
        acc := rev xs @ acc st,
        rest := drop (length xs) (rest st)\<rparr>"


definition units :: "string list" where
  "units = [''px'', ''rem'', ''em'', ''vh'', ''vw'', ''%'']"

definition escapeChar :: "char \<Rightarrow> string" where
  "escapeChar c = (if c \<in> set syntaxChars then [BSLASH, c] else [c])"

text \<open>
  What the claims say of the substitution, written without regular expressions: the
  occurrences of a text \<open>v\<close> in \<open>s\<close>, taken from the left and without overlap, and \<open>s\<close> with
  each of them replaced by \<open>w\<close>.
\<close>

function occurrences :: "string \<Rightarrow> string \<Rightarrow> nat" where
  "occurrences v s =
     (if v \<noteq> [] \<and> prefix v s then Suc (occurrences v (drop (length v) s))
      else (case s of [] \<Rightarrow> 0 | c # cs \<Rightarrow> occurrences v cs))"
  by pat_completeness auto
termination
  by (relation "measure (\<lambda>(v, s). length s)") (auto simp: prefix_def)

function substitute :: "string \<Rightarrow> string \<Rightarrow> string \<Rightarrow> string" where
  "substitute v w s =
     (if v \<noteq> [] \<and> prefix v s then w @ substitute v w (drop (length v) s)
      else (case s of [] \<Rightarrow> [] | c # cs \<Rightarrow> c # substitute v w cs))"
  by pat_completeness auto
termination
  by (relation "measure (\<lambda>(v, w, s). length s)") (auto simp: prefix_def)

declare occurrences.simps [simp del] substitute.simps [simp del]

section \<open>Properties of the matcher\<close>

declare execAll.simps [simp del] execFirst.simps [simp del] replaceAll.simps [simp del] matchAll.simps [simp del]

lemma ends_Atom_iff:
  "st' \<in> set (ends ic (Atom neg items) st) \<longleftrightarrow>
     (\<exists>c cs. rest st = c # cs \<and> inClass ic neg items c \<and>
        st' = st\<lparr>prev := Some c, acc := c # acc st, rest := cs\<rparr>)"
  by (cases "rest st") auto

lemma exactly_le:
  assumes "\<And>st st'. st' \<in> set (f st) \<Longrightarrow> length (rest st') \<le> length (rest st)"
  shows "st' \<in> set (exactly f k st) \<Longrightarrow> length (rest st') \<le> length (rest st)"
proof (induction k arbitrary: st)
  case 0
  then show ?case by simp
next
  case (Suc k)
  then obtain st1 where "st1 \<in> set (f st)" "st' \<in> set (exactly f k st1)" by auto
  with Suc.IH assms show ?case by fastforce
qed

lemma many_le:
  "st' \<in> set (many f n st) \<Longrightarrow> length (rest st') \<le> length (rest st)"
proof (induction n arbitrary: st)
  case 0
  then show ?case by simp
next
  case (Suc n)
  then show ?case by fastforce
qed

lemma ends_le:
  "st' \<in> set (ends ic r st) \<Longrightarrow> length (rest st') \<le> length (rest st)"
proof (induction r arbitrary: st st')
  case (Atom neg items)
  then show ?case unfolding ends_Atom_iff by auto
next
  case (Seq a b)
  then show ?case by fastforce
next
  case (Rep lo hi a)
  from Rep.prems obtain st1 where st1: "st1 \<in> set (exactly (ends ic a) lo st)"
    and st': "st' \<in> set (many (ends ic a) (case hi of None \<Rightarrow> length (rest st) | Some h \<Rightarrow> h - lo) st1)"
    by auto
  have "length (rest st1) \<le> length (rest st)"
    using exactly_le [of "ends ic a", OF Rep.IH st1] .
  moreover have "length (rest st') \<le> length (rest st1)" using many_le [OF st'] .
  ultimately show ?case by simp
next
  case (Group n a)
  then show ?case by fastforce
next
  case (NotBehind items)
  then show ?case by (auto split: option.splits if_splits)
qed (auto split: if_splits)

lemma exactly_lt:
  assumes "\<And>st st'. st' \<in> set (f st) \<Longrightarrow> length (rest st') < length (rest st)"
  shows "0 < k \<Longrightarrow> st' \<in> set (exactly f k st) \<Longrightarrow> length (rest st') < length (rest st)"
proof (induction k arbitrary: st)
  case 0
  then show ?case by simp
next
  case (Suc k)
  then obtain st1 where a: "st1 \<in> set (f st)" and b: "st' \<in> set (exactly f k st1)" by auto
  have "length (rest st') \<le> length (rest st1)"
    using exactly_le [of f, OF _ b] assms by (simp add: less_imp_le)
  with assms [OF a] show ?case by simp
qed

lemma ends_lt:
  "consuming r \<Longrightarrow> st' \<in> set (ends ic r st) \<Longrightarrow> length (rest st') < length (rest st)"
proof (induction r arbitrary: st st')
  case (Atom neg items)
  then show ?case unfolding ends_Atom_iff by auto
next
  case (Seq a b)
  from Seq.prems obtain st1 where a: "st1 \<in> set (ends ic a st)" and b: "st' \<in> set (ends ic b st1)"
    by auto
  from Seq.prems(1) have "consuming a \<or> consuming b" by simp
  then show ?case
  proof
    assume "consuming a"
    with Seq.IH(1) a ends_le [OF b] show ?thesis by fastforce
  next
    assume "consuming b"
    with Seq.IH(2) b ends_le [OF a] show ?thesis by fastforce
  qed
next
  case (Alt a b)
  then show ?case by auto
next
  case (Rep lo hi a)
  from Rep.prems obtain st1 where st1: "st1 \<in> set (exactly (ends ic a) lo st)"
    and st': "st' \<in> set (many (ends ic a) (case hi of None \<Rightarrow> length (rest st) | Some h \<Rightarrow> h - lo) st1)"
    by auto
  have "length (rest st1) < length (rest st)"
    using exactly_lt [of "ends ic a" lo st1 st] Rep.IH Rep.prems(1) st1 by simp
  with many_le [OF st'] show ?case by simp
next
  case (Group n a)
  then show ?case by fastforce
qed simp_all

lemma execAll_total:
  assumes "consuming r"
  shows "\<exists>ms. execAll ic r p s = Some ms"
proof (induction s arbitrary: p rule: length_induct)
  case (1 s)
  show ?case
  proof (cases "ends ic r (start p s)")
    case Nil
    show ?thesis
    proof (cases s)
      case Nil
      with \<open>ends ic r (start p s) = []\<close> show ?thesis by (simp add: execAll.simps)
    next
      case (Cons c cs)
      with 1 obtain ms where "execAll ic r (Some c) cs = Some ms" by fastforce
      with Cons Nil show ?thesis by (simp add: execAll.simps)
    qed
  next
    case (Cons st sts)
    then have "st \<in> set (ends ic r (start p s))" by simp
    from ends_lt [OF assms this] have lt: "length (rest st) < length s" by (simp add: start_def)
    with 1 obtain ms where "execAll ic r (prev st) (rest st) = Some ms" by blast
    with Cons lt show ?thesis by (simp add: execAll.simps)
  qed
qed

lemma consuming_patterns:
  "consuming COLOR_HEX" "consuming COLOR_RGB" "consuming COLOR_HSL" "consuming COLOR_NAMED"
  "consuming SPACING" "consuming FONT_FAMILY"
  by (simp_all add: COLOR_HEX_def COLOR_RGB_def COLOR_HSL_def COLOR_NAMED_def SPACING_def
      FONT_FAMILY_def seqs_def str_def chr_def Plus_def)

subsection \<open>The extraction loops return\<close>

lemma loops_total:
  "\<exists>vs. hexValues l = Some vs" "\<exists>vs. rgbValues l = Some vs" "\<exists>vs. hslValues l = Some vs"
  "\<exists>vs. namedValues l p = Some vs" "\<exists>vs. spacingValues l p = Some vs"
  "\<exists>vs. fontValues l = Some vs"
  using execAll_total [OF consuming_patterns(1), of False None l]
        execAll_total [OF consuming_patterns(2), of False None l]
        execAll_total [OF consuming_patterns(3), of False None l]
        execAll_total [OF consuming_patterns(4), of True None l]
        execAll_total [OF consuming_patterns(5), of False None l]
        execAll_total [OF consuming_patterns(6), of False None l]
  by (auto simp: hexValues_def rgbValues_def hslValues_def namedValues_def spacingValues_def
      fontValues_def)

lemma addAll_rule:
  fixes Q :: "valueMap \<Rightarrow> bool"
  assumes "Q m" and "\<And>m v. Q m \<Longrightarrow> Q (addValue m v t f n p)"
  shows "Q (addAll t f n p vs m)"
  using assms(1) unfolding addAll_def
  by (induction vs arbitrary: m) (simp_all add: assms(2))

lemma extractLine_total: "\<exists>m'. extractLine scope f n l m = Some m'"
proof -
  obtain hx rg hs nm sp fo where
    "hexValues l = Some hx" "rgbValues l = Some rg" "hslValues l = Some hs"
    "namedValues l (propertyOf l) = Some nm" "spacingValues l (propertyOf l) = Some sp"
    "fontValues l = Some fo"
    using loops_total by metis
  then show ?thesis by (simp add: extractLine_def Let_def)
qed

lemma extractLine_rule:
  fixes Q :: "valueMap \<Rightarrow> bool"
  assumes res: "extractLine scope f n l m = Some m'"
    and init: "Q m"
    and step: "\<And>m v t p. Q m \<Longrightarrow> \<not> skipLine l \<Longrightarrow> \<not> hasVarRef l \<Longrightarrow> enabled scope t \<Longrightarrow>
                 Q (addValue m v t f (n + 1) p)"
  shows "Q m'"
proof (cases "skipLine l \<or> hasVarRef l")
  case True
  with res init show ?thesis by (auto simp: extractLine_def split: if_splits)
next
  case False
  obtain hx rg hs nm sp fo where vs:
    "hexValues l = Some hx" "rgbValues l = Some rg" "hslValues l = Some hs"
    "namedValues l (propertyOf l) = Some nm" "spacingValues l (propertyOf l) = Some sp"
    "fontValues l = Some fo"
    using loops_total by metis
  have add: "Q (addAll t f (Suc n) (propertyOf l) xs k)" if "Q k" "enabled scope t" for t xs k
    using that False step by (auto intro: addAll_rule [where Q = Q and m = k])
  consider (all) "scope = ''all''" | (colors) "scope = ''colors''" | (spacing) "scope = ''spacing''"
    | (none) "scope \<noteq> ''all''" "scope \<noteq> ''colors''" "scope \<noteq> ''spacing''"
    by blast
  then show ?thesis
  proof cases
    case all
    with res False vs have "m' = addAll Font f (n + 1) (propertyOf l) fo
        (addAll Spacing f (n + 1) (propertyOf l) sp
          (addAll Color f (n + 1) (propertyOf l) nm (addAll Color f (n + 1) (propertyOf l) hs
             (addAll Color f (n + 1) (propertyOf l) rg (addAll Color f (n + 1) (propertyOf l) hx m)))))"
      by (simp add: extractLine_def Let_def)
    with all init show ?thesis by (simp add: add enabled_def)
  next
    case colors
    with res False vs have "m' =
          addAll Color f (n + 1) (propertyOf l) nm (addAll Color f (n + 1) (propertyOf l) hs
             (addAll Color f (n + 1) (propertyOf l) rg (addAll Color f (n + 1) (propertyOf l) hx m)))"
      by (simp add: extractLine_def Let_def)
    with colors init show ?thesis by (simp add: add enabled_def)
  next
    case spacing
    with res False vs have "m' = addAll Spacing f (n + 1) (propertyOf l) sp m"
      by (simp add: extractLine_def Let_def)
    with spacing init show ?thesis by (simp add: add enabled_def)
  next
    case none
    with res False have "m' = m" by (simp add: extractLine_def Let_def)
    with init show ?thesis by simp
  qed
qed

lemma extractLines_total: "\<exists>m'. extractLines scope f n ls m = Some m'"
proof (induction ls arbitrary: n m)
  case Nil
  show ?case by simp
next
  case (Cons l ls)
  obtain m1 where "extractLine scope f n l m = Some m1" using extractLine_total by blast
  with Cons show ?case by simp
qed

lemma extractValues_total: "\<exists>m. extractValues content f scope = Some m"
  by (simp add: extractValues_def extractLines_total)

lemma extractLines_rule:
  fixes Q :: "valueMap \<Rightarrow> bool"
  assumes "extractLines scope f n ls m = Some m'"
    and "Q m"
    and "\<And>m v t p i. Q m \<Longrightarrow> i < length ls \<Longrightarrow> \<not> skipLine (ls ! i) \<Longrightarrow> \<not> hasVarRef (ls ! i) \<Longrightarrow>
            enabled scope t \<Longrightarrow> Q (addValue m v t f (n + i + 1) p)"
  shows "Q m'"
  using assms
proof (induction ls arbitrary: n m)
  case Nil
  then show ?case by simp
next
  case (Cons l ls)
  from Cons.prems(1) obtain m1 where m1: "extractLine scope f n l m = Some m1"
    and rest: "extractLines scope f (n + 1) ls m1 = Some m'"
    by (auto split: option.splits)
  have "Q m1"
  proof (rule extractLine_rule [where Q = Q, OF m1 Cons.prems(2)])
    fix k v t p
    assume "Q k" "\<not> skipLine l" "\<not> hasVarRef l" "enabled scope t"
    then show "Q (addValue k v t f (n + 1) p)"
      using Cons.prems(3) [of k 0 t v p] by simp
  qed
  show ?case
  proof (rule Cons.IH [where n = "n + 1", OF rest \<open>Q m1\<close>])
    fix k v t p i
    assume "Q k" "i < length ls" "\<not> skipLine (ls ! i)" "\<not> hasVarRef (ls ! i)" "enabled scope t"
    then show "Q (addValue k v t f (n + 1 + i + 1) p)"
      using Cons.prems(3) [of k "Suc i" t v p] by simp
  qed
qed

lemma in_update: "e \<in> set (AList.update k v m) \<Longrightarrow> e = (k, v) \<or> e \<in> set m"
  by (induction m) (auto split: if_splits)

lemma addValue_type:
  assumes "e \<in> set (addValue m v t f n p)"
  shows "ev_type (snd e) = t \<or> (\<exists>e' \<in> set m. ev_type (snd e') = ev_type (snd e))"
proof (cases "map_of m v")
  case None
  with assms have "e \<in> set (AList.update v
       \<lparr>ev_value = v, ev_type = t, locations = [\<lparr>loc_file = f, loc_line = n, loc_property = p\<rparr>]\<rparr> m)"
    by (simp add: addValue_def)
  from in_update [OF this] show ?thesis by auto
next
  case (Some ex)
  then have ex: "(v, ex) \<in> set m" by (rule map_of_SomeD)
  from Some assms have "e \<in> set (AList.update v
       (ex\<lparr>locations := locations ex @ [\<lparr>loc_file = f, loc_line = n, loc_property = p\<rparr>]\<rparr>) m)"
    by (simp add: addValue_def)
  from in_update [OF this] ex show ?thesis by force
qed

text \<open>
  Claim C10.  Font families are extracted only under the scope \<^verbatim>\<open>all\<close>: under any other
  scope (\<^verbatim>\<open>colors\<close> and \<^verbatim>\<open>spacing\<close> among them) \<^verbatim>\<open>extractValues\<close> returns, and no entry
  of its result has the type \<^verbatim>\<open>font\<close>, whatever the content holds.
\<close>

theorem font_only_in_scope_all:
  assumes "scope \<noteq> ''all''"
  shows "\<exists>m. extractValues content filePath scope = Some m \<and>
             (\<forall>e \<in> set m. ev_type (snd e) \<noteq> Font)"
proof -
  obtain m where m: "extractValues content filePath scope = Some m"
    using extractValues_total by blast
  let ?Q = "\<lambda>m::valueMap. \<forall>e \<in> set m. ev_type (snd e) \<noteq> Font"
  have "?Q m"
  proof (rule extractLines_rule [where Q = ?Q, OF m [unfolded extractValues_def]])
    show "?Q []" by simp
  next
    fix k v t p i
    assume Q: "?Q k" and en: "enabled scope t"
    from en assms have "t \<noteq> Font" by (auto simp: enabled_def)
    with Q show "?Q (addValue k v t filePath (0 + i + 1) p)"
      using addValue_type by fastforce
  qed
  with m show ?thesis by blast
qed

theorem font_only_in_scope_all_witness:
  "''colors'' \<noteq> ''all'' \<and>
   (\<exists>m. extractValues ''font-family: Arial;'' ''a.css'' ''colors'' = Some m \<and>
        (\<forall>e \<in> set m. ev_type (snd e) \<noteq> Font))"
  using font_only_in_scope_all [of "''colors''" "''font-family: Arial;''" "''a.css''"] by simp

subsection \<open>Maps in insertion order\<close>

lemma update_absent: "k \<notin> fst ` set m \<Longrightarrow> AList.update k v m = m @ [(k, v)]"
  by (induction m) auto

lemma foldl_update_filter:
  assumes "distinct (map fst xs)" and "fst ` set r0 \<inter> fst ` set xs = {}"
  shows "foldl (\<lambda>r e. if P e then AList.update (fst e) (snd e) r else r) r0 xs
         = r0 @ filter P xs"
  using assms
proof (induction xs arbitrary: r0)
  case Nil
  show ?case by simp
next
  case (Cons x xs)
  have fresh: "fst x \<notin> fst ` set r0" using Cons.prems(2) by auto
  show ?case
  proof (cases "P x")
    case True
    have "fst ` set (r0 @ [x]) \<inter> fst ` set xs = {}"
      using Cons.prems by auto
    with Cons.IH [of "r0 @ [x]"] Cons.prems(1) True fresh show ?thesis
      by (simp add: update_absent)
  next
    case False
    have "fst ` set r0 \<inter> fst ` set xs = {}" using Cons.prems(2) by auto
    with Cons.IH [of r0] Cons.prems(1) False show ?thesis by simp
  qed
qed

lemma selectRepeated_filter:
  "distinct (map fst allValues) \<Longrightarrow>
   selectRepeated mn allValues = filter (\<lambda>e. mn \<le> int (length (locations (snd e)))) allValues"
  unfolding selectRepeated_def
  using foldl_update_filter [of allValues "[]" "\<lambda>e. mn \<le> int (length (locations (snd e)))"]
  by simp

text \<open>
  Claim C6.  For one aggregated mapping (a \<^verbatim>\<open>Map\<close>, so its keys are distinct) and thresholds
  \<open>m1 \<le> m2\<close>, what is selected at \<open>m2\<close> is selected at \<open>m1\<close>, the selection does not grow,
  and both selections list their entries in the order of the mapping.
\<close>

theorem selector_monotone:
  assumes "distinct (map fst allValues)" and "m1 \<le> m2"
  shows "set (selectRepeated m2 allValues) \<subseteq> set (selectRepeated m1 allValues) \<and>
         length (selectRepeated m2 allValues) \<le> length (selectRepeated m1 allValues) \<and>
         subseq (selectRepeated m2 allValues) (selectRepeated m1 allValues) \<and>
         subseq (selectRepeated m1 allValues) allValues"
proof (intro conjI)
  let ?P = "\<lambda>m e. m \<le> int (length (locations (snd (e :: string \<times> ExtractedValue))))"
  have s1: "selectRepeated m1 allValues = filter (?P m1) allValues"
    and s2: "selectRepeated m2 allValues = filter (?P m2) allValues"
    using assms(1) by (simp_all add: selectRepeated_filter)
  have "filter (?P m2) allValues = filter (?P m2) (filter (?P m1) allValues)"
    using assms(2) by (auto intro: filter_cong)
  then have eq: "selectRepeated m2 allValues = filter (?P m2) (selectRepeated m1 allValues)"
    using s1 s2 by simp
  show "set (selectRepeated m2 allValues) \<subseteq> set (selectRepeated m1 allValues)"
    by (subst eq) auto
  show "length (selectRepeated m2 allValues) \<le> length (selectRepeated m1 allValues)"
    by (subst eq) simp
  show "subseq (selectRepeated m2 allValues) (selectRepeated m1 allValues)"
    by (subst eq) simp
  show "subseq (selectRepeated m1 allValues) allValues"
    by (subst s1) simp
qed

theorem selector_monotone_witness:
  "distinct (map fst
     [(''#fff'', \<lparr>ev_value = ''#fff'', ev_type = Color,
         locations = [\<lparr>loc_file = ''a.css'', loc_line = 1, loc_property = ''color''\<rparr>,
                      \<lparr>loc_file = ''a.css'', loc_line = 4, loc_property = ''color''\<rparr>]\<rparr>),
      (''16px'', \<lparr>ev_value = ''16px'', ev_type = Spacing,
         locations = [\<lparr>loc_file = ''a.css'', loc_line = 2, loc_property = ''margin''\<rparr>,
                      \<lparr>loc_file = ''a.css'', loc_line = 3, loc_property = ''margin''\<rparr>,
                      \<lparr>loc_file = ''b.css'', loc_line = 1, loc_property = ''padding''\<rparr>]\<rparr>)]) \<and>
   (2 :: int) \<le> 3 \<and>
   selectRepeated 3
     [(''#fff'', \<lparr>ev_value = ''#fff'', ev_type = Color,
         locations = [\<lparr>loc_file = ''a.css'', loc_line = 1, loc_property = ''color''\<rparr>,
                      \<lparr>loc_file = ''a.css'', loc_line = 4, loc_property = ''color''\<rparr>]\<rparr>),
      (''16px'', \<lparr>ev_value = ''16px'', ev_type = Spacing,
         locations = [\<lparr>loc_file = ''a.css'', loc_line = 2, loc_property = ''margin''\<rparr>,
                      \<lparr>loc_file = ''a.css'', loc_line = 3, loc_property = ''margin''\<rparr>,
                      \<lparr>loc_file = ''b.css'', loc_line = 1, loc_property = ''padding''\<rparr>]\<rparr>)]
   = [(''16px'', \<lparr>ev_value = ''16px'', ev_type = Spacing,
         locations = [\<lparr>loc_file = ''a.css'', loc_line = 2, loc_property = ''margin''\<rparr>,
                      \<lparr>loc_file = ''a.css'', loc_line = 3, loc_property = ''margin''\<rparr>,
                      \<lparr>loc_file = ''b.css'', loc_line = 1, loc_property = ''padding''\<rparr>]\<rparr>)] \<and>
   subseq
     (selectRepeated 3
        [(''#fff'', \<lparr>ev_value = ''#fff'', ev_type = Color,
            locations = [\<lparr>loc_file = ''a.css'', loc_line = 1, loc_property = ''color''\<rparr>,
                         \<lparr>loc_file = ''a.css'', loc_line = 4, loc_property = ''color''\<rparr>]\<rparr>),
         (''16px'', \<lparr>ev_value = ''16px'', ev_type = Spacing,
            locations = [\<lparr>loc_file = ''a.css'', loc_line = 2, loc_property = ''margin''\<rparr>,
                         \<lparr>loc_file = ''a.css'', loc_line = 3, loc_property = ''margin''\<rparr>,
                         \<lparr>loc_file = ''b.css'', loc_line = 1, loc_property = ''padding''\<rparr>]\<rparr>)])
     (selectRepeated 2
        [(''#fff'', \<lparr>ev_value = ''#fff'', ev_type = Color,
            locations = [\<lparr>loc_file = ''a.css'', loc_line = 1, loc_property = ''color''\<rparr>,
                         \<lparr>loc_file = ''a.css'', loc_line = 4, loc_property = ''color''\<rparr>]\<rparr>),
         (''16px'', \<lparr>ev_value = ''16px'', ev_type = Spacing,
            locations = [\<lparr>loc_file = ''a.css'', loc_line = 2, loc_property = ''margin''\<rparr>,
                         \<lparr>loc_file = ''a.css'', loc_line = 3, loc_property = ''margin''\<rparr>,
                         \<lparr>loc_file = ''b.css'', loc_line = 1, loc_property = ''padding''\<rparr>]\<rparr>)])"
  using selector_monotone [of
     "[(''#fff'', \<lparr>ev_value = ''#fff'', ev_type = Color,
         locations = [\<lparr>loc_file = ''a.css'', loc_line = 1, loc_property = ''color''\<rparr>,
                      \<lparr>loc_file = ''a.css'', loc_line = 4, loc_property = ''color''\<rparr>]\<rparr>),
      (''16px'', \<lparr>ev_value = ''16px'', ev_type = Spacing,
         locations = [\<lparr>loc_file = ''a.css'', loc_line = 2, loc_property = ''margin''\<rparr>,
                      \<lparr>loc_file = ''a.css'', loc_line = 3, loc_property = ''margin''\<rparr>,
                      \<lparr>loc_file = ''b.css'', loc_line = 1, loc_property = ''padding''\<rparr>]\<rparr>)]" 2 3]
  by (simp add: selectRepeated_def)

subsection \<open>The naming loop\<close>

lemma nameAll_snoc: "nameAll pfx (xs @ [e]) = nameStep pfx (nameAll pfx xs) e"
  by (simp add: nameAll_def)

lemma counts_nameAll:
  "counterOf (counts (nameAll pfx xs)) t = length (filter (\<lambda>e. ev_type (snd e) = t) xs)"
proof (induction xs rule: rev_induct)
  case Nil
  show ?case by (cases t) (simp_all add: nameAll_def counterOf_def)
next
  case (snoc e xs)
  then show ?case
    by (cases t; cases "ev_type (snd e)")
       (simp_all add: nameAll_snoc nameStep_def Let_def counterOf_def bump_def)
qed

lemma varMap_nameAll:
  assumes "distinct (map fst xs)" and "i < length xs"
  shows "map_of (varMap (nameAll pfx xs)) (fst (xs ! i)) =
         Some (generateVarName pfx (ev_type (snd (xs ! i))) (fst (xs ! i))
                 (length (filter (\<lambda>e. ev_type (snd e) = ev_type (snd (xs ! i))) (take i xs))))"
  using assms
proof (induction xs rule: rev_induct)
  case Nil
  then show ?case by simp
next
  case (snoc e xs)
  have vm: "map_of (varMap (nameAll pfx (xs @ [e]))) =
            (map_of (varMap (nameAll pfx xs)))
              (fst e \<mapsto> generateVarName pfx (ev_type (snd e)) (fst e)
                              (counterOf (counts (nameAll pfx xs)) (ev_type (snd e))))"
    by (simp add: nameAll_snoc nameStep_def Let_def update_conv')
  show ?case
  proof (cases "i < length xs")
    case True
    then have "xs ! i \<in> set xs" by simp
    then have "fst (xs ! i) \<in> fst ` set xs" by (rule imageI)
    moreover have "fst e \<notin> fst ` set xs" using snoc.prems(1) by simp
    ultimately have "fst (xs ! i) \<noteq> fst e" by metis
    with True snoc show ?thesis by (simp add: vm nth_append)
  next
    case False
    with snoc.prems(2) have "i = length xs" by simp
    then show ?thesis by (simp add: vm counts_nameAll)
  qed
qed

text \<open>
  Claim C1, as amended.  In the names that a run assigns to its selected values (a \<^verbatim>\<open>Map\<close>,
  so the keys are distinct), a colour that reads \<^verbatim>\<open>#fff\<close> or \<^verbatim>\<open>#ffffff\<close> in lower case is
  \<^verbatim>\<open>--{prefix}-color-white\<close>, one that reads \<^verbatim>\<open>#000\<close> or \<^verbatim>\<open>#000000\<close> is
  \<^verbatim>\<open>--{prefix}-color-black\<close>, and any other colour is \<^verbatim>\<open>--{prefix}-color-{k+1}\<close>, where
  \<open>k\<close> is the number of selected colours before it, white and black counted.
\<close>

theorem color_names:
  assumes "distinct (map fst repeated)" and "i < length repeated"
    and "ev_type (snd (repeated ! i)) = Color"
  shows "map_of (varMap (nameAll pfx repeated)) (fst (repeated ! i)) =
         Some (if toLowerCase (fst (repeated ! i)) = ''#fff'' \<or>
                  toLowerCase (fst (repeated ! i)) = ''#ffffff''
               then ''--'' @ pfx @ ''-color-white''
               else if toLowerCase (fst (repeated ! i)) = ''#000'' \<or>
                       toLowerCase (fst (repeated ! i)) = ''#000000''
               then ''--'' @ pfx @ ''-color-black''
               else ''--'' @ pfx @ ''-color-'' @
                    showNat (length (filter (\<lambda>e. ev_type (snd e) = Color) (take i repeated)) + 1))"
  using varMap_nameAll [OF assms(1,2), of pfx] assms(3)
  by (simp add: generateVarName_def typeName_def Let_def)

theorem color_names_witness:
  "distinct (map fst
     [(''#ffffff'', \<lparr>ev_value = ''#ffffff'', ev_type = Color, locations = []\<rparr>),
      (''#ff0000'', \<lparr>ev_value = ''#ff0000'', ev_type = Color, locations = []\<rparr>)]) \<and>
   (1 :: nat) < length
     [(''#ffffff'', \<lparr>ev_value = ''#ffffff'', ev_type = Color, locations = []\<rparr>),
      (''#ff0000'', \<lparr>ev_value = ''#ff0000'', ev_type = Color, locations = []\<rparr>)] \<and>
   map_of (varMap (nameAll ''cv''
     [(''#ffffff'', \<lparr>ev_value = ''#ffffff'', ev_type = Color, locations = []\<rparr>),
      (''#ff0000'', \<lparr>ev_value = ''#ff0000'', ev_type = Color, locations = []\<rparr>)])) ''#ff0000''
   = Some ''--cv-color-2''"
proof -
  have l: "toLowerCase ''#ff0000'' = ''#ff0000''" by code_simp
  have n: "showNat (Suc (Suc 0)) = ''2''" by code_simp
  show ?thesis
    using color_names [of
      "[(''#ffffff'', \<lparr>ev_value = ''#ffffff'', ev_type = Color, locations = []\<rparr>),
        (''#ff0000'', \<lparr>ev_value = ''#ff0000'', ev_type = Color, locations = []\<rparr>)]" 1 "''cv''"]
    by (simp add: l n)
qed

text \<open>
  The claim as stated fails: in a run over one file that holds \<^verbatim>\<open>#ffffff\<close> twice and then
  \<^verbatim>\<open>#ff0000\<close> twice, white is named first and the next colour is \<^verbatim>\<open>--cv-color-2\<close>.
\<close>

theorem color_ordinal_counterexample:
  "(case main \<lparr>opt_dryRun = True, opt_min = 2, opt_scope = ''colors'', opt_prefix = ''cv'',
               opt_json = False\<rparr>
          [''a.css'']
          [''a.css'' \<mapsto> ''a:#ffffff'' @ [NL] @ ''b:#ffffff'' @ [NL] @ ''c:#ff0000'' @ [NL] @ ''d:#ff0000'']
    of Inr (DryRun r, fs) \<Rightarrow> rep_names r | _ \<Rightarrow> [])
   = [(''#ffffff'', ''--cv-color-white''), (''#ff0000'', ''--cv-color-2'')]"
  by code_simp

subsection \<open>Preview and apply\<close>

text \<open>
  Claim C2, as amended.  A run with \<^verbatim>\<open>--dry-run\<close> that returns leaves the file system as it
  was and computes no number of replacements.  When the run without \<^verbatim>\<open>--dry-run\<close> (and
  without \<^verbatim>\<open>--json\<close>) applies its changes, the run with \<^verbatim>\<open>--dry-run\<close> on the same input
  returns the same report: the same selected values with their occurrences, the same
  names and the same root block.
\<close>

theorem preview_same_report:
  "(main (opts\<lparr>opt_dryRun := True\<rparr>) cssFiles fs = Inr (out, fs') \<longrightarrow>
      fs' = fs \<and> replacements out = None) \<and>
   (\<not> opt_json opts \<and>
    main (opts\<lparr>opt_dryRun := False\<rparr>) cssFiles fs = Inr (Applied r n, fs'') \<longrightarrow>
      main (opts\<lparr>opt_dryRun := True\<rparr>) cssFiles fs = Inr (DryRun r, fs))"
  by (auto simp: main_def Let_def replacements_def split: if_splits sum.splits prod.splits)

theorem preview_same_report_witness:
  "\<exists>r n fs''.
     main \<lparr>opt_dryRun = False, opt_min = 2, opt_scope = ''colors'', opt_prefix = ''cv'',
           opt_json = False\<rparr>
       [''a.css''] [''a.css'' \<mapsto> ''a:#abc'' @ [NL] @ ''b:#abc'']
     = Inr (Applied r n, fs'') \<and>
     main \<lparr>opt_dryRun = True, opt_min = 2, opt_scope = ''colors'', opt_prefix = ''cv'',
           opt_json = False\<rparr>
       [''a.css''] [''a.css'' \<mapsto> ''a:#abc'' @ [NL] @ ''b:#abc'']
     = Inr (DryRun r, [''a.css'' \<mapsto> ''a:#abc'' @ [NL] @ ''b:#abc''])"
proof -
  let ?opts = "\<lparr>opt_dryRun = False, opt_min = 2, opt_scope = ''colors'', opt_prefix = ''cv'',
                opt_json = False\<rparr>"
  let ?fs = "[''a.css'' \<mapsto> ''a:#abc'' @ [NL] @ ''b:#abc'']"
  have "case main ?opts [''a.css''] ?fs of Inr (Applied r n, fs'') \<Rightarrow> True | _ \<Rightarrow> False"
    by code_simp
  then obtain r n fs'' where a: "main ?opts [''a.css''] ?fs = Inr (Applied r n, fs'')"
    by (auto split: sum.splits prod.splits outcome.splits)
  from preview_same_report [of ?opts "[''a.css'']" ?fs _ _ r n fs''] a
  have "main (?opts\<lparr>opt_dryRun := True\<rparr>) [''a.css''] ?fs = Inr (DryRun r, ?fs)" by simp
  with a show ?thesis by auto
qed

text \<open>
  The claim as stated fails on the replacement counts: on a file that holds \<^verbatim>\<open>#abc\<close> twice
  the applying run reports two replacements, and the run with \<^verbatim>\<open>--dry-run\<close> computes none.
\<close>

theorem preview_counts_counterexample:
  "(case main \<lparr>opt_dryRun = True, opt_min = 2, opt_scope = ''colors'', opt_prefix = ''cv'',
                opt_json = False\<rparr>
           [''a.css''] [''a.css'' \<mapsto> ''a:#abc'' @ [NL] @ ''b:#abc'']
    of Inr (out, fs') \<Rightarrow> replacements out | Inl e \<Rightarrow> None) = None \<and>
   (case main \<lparr>opt_dryRun = False, opt_min = 2, opt_scope = ''colors'', opt_prefix = ''cv'',
                opt_json = False\<rparr>
           [''a.css''] [''a.css'' \<mapsto> ''a:#abc'' @ [NL] @ ''b:#abc'']
    of Inr (out, fs') \<Rightarrow> replacements out | Inl e \<Rightarrow> None) = Some 2"
  by code_simp

subsection \<open>The aggregation\<close>

lemma extends_refl: "extends e e"
  by (simp add: extends_def)

lemma extends_trans: "extends a b \<Longrightarrow> extends b c \<Longrightarrow> extends a c"
  by (auto simp: extends_def)

lemma addValue_existing:
  "map_of m v = Some e \<Longrightarrow>
   map_of (addValue m v t f l p) =
   (map_of m)(v \<mapsto> e\<lparr>locations := locations e @ [\<lparr>loc_file = f, loc_line = l, loc_property = p\<rparr>]\<rparr>)"
  by (simp add: addValue_def update_conv')

lemma addValue_new:
  "map_of m v = None \<Longrightarrow>
   map_of (addValue m v t f l p) =
   (map_of m)(v \<mapsto> \<lparr>ev_value = v, ev_type = t,
                      locations = [\<lparr>loc_file = f, loc_line = l, loc_property = p\<rparr>]\<rparr>)"
  by (simp add: addValue_def update_conv')

lemma addValue_extends:
  assumes "map_of m k = Some e"
  shows "\<exists>e'. map_of (addValue m v t f l p) k = Some e' \<and> extends e e'"
proof (cases "map_of m v")
  case None
  with assms have "k \<noteq> v" by auto
  with assms None show ?thesis by (simp add: addValue_new extends_refl)
next
  case (Some ex)
  with assms show ?thesis by (cases "k = v") (auto simp: addValue_existing extends_def)
qed

lemma addValue_distinct: "distinct (map fst m) \<Longrightarrow> distinct (map fst (addValue m v t f l p))"
  by (auto simp: addValue_def distinct_update split: option.splits)

lemma extractLines_extends:
  assumes "extractLines scope f n ls m = Some m'" and "map_of m k = Some e"
  shows "\<exists>e'. map_of m' k = Some e' \<and> extends e e'"
proof (rule extractLines_rule [where Q = "\<lambda>m. \<exists>e'. map_of m k = Some e' \<and> extends e e'", OF assms(1)])
  show "\<exists>e'. map_of m k = Some e' \<and> extends e e'" using assms(2) extends_refl by blast
next
  fix m1 v t p i
  assume "\<exists>e'. map_of m1 k = Some e' \<and> extends e e'"
  then obtain e1 where e1: "map_of m1 k = Some e1" "extends e e1" by blast
  from addValue_extends [OF e1(1)] obtain e2 where
    "map_of (addValue m1 v t f (n + i + 1) p) k = Some e2" "extends e1 e2" by blast
  with e1(2) show "\<exists>e'. map_of (addValue m1 v t f (n + i + 1) p) k = Some e' \<and> extends e e'"
    using extends_trans by blast
qed

lemma extractValues_distinct:
  assumes "extractValues content f scope = Some m"
  shows "distinct (map fst m)"
  by (rule extractLines_rule [where Q = "\<lambda>m. distinct (map fst m)",
        OF assms [unfolded extractValues_def]])
     (simp_all add: addValue_distinct)

lemma mergeEntry_map_of:
  "map_of (mergeEntry allValues (k, e2)) =
   (map_of allValues)(k \<mapsto>
      (case map_of allValues k of
         None \<Rightarrow> e2
       | Some e \<Rightarrow> e\<lparr>locations := locations e @ locations e2\<rparr>))"
  by (simp add: mergeEntry_def update_conv' split: option.splits)

lemma merge_map_of:
  assumes "distinct (map fst fileValues)"
  shows "map_of (foldl mergeEntry allValues fileValues) k =
         (case map_of fileValues k of
            None \<Rightarrow> map_of allValues k
          | Some e2 \<Rightarrow>
              (case map_of allValues k of
                 None \<Rightarrow> Some e2
               | Some e \<Rightarrow> Some (e\<lparr>locations := locations e @ locations e2\<rparr>)))"
  using assms
proof (induction fileValues arbitrary: allValues)
  case Nil
  show ?case by simp
next
  case (Cons x xs)
  obtain k1 e1 where x: "x = (k1, e1)" by (cases x)
  from Cons.prems x have fresh: "map_of xs k1 = None" and d: "distinct (map fst xs)"
    by (auto simp: map_of_eq_None_iff)
  show ?case
  proof (cases "k = k1")
    case True
    with Cons.IH [OF d, of "mergeEntry allValues (k1, e1)"] fresh x show ?thesis
      by (simp add: mergeEntry_map_of split: option.splits)
  next
    case False
    then have "map_of (mergeEntry allValues (k1, e1)) k = map_of allValues k"
      by (simp add: mergeEntry_map_of)
    with Cons.IH [OF d, of "mergeEntry allValues (k1, e1)"] x False show ?thesis
      by (simp split: option.splits)
  qed
qed


lemma extractLine_rule_at:
  fixes Q :: "valueMap \<Rightarrow> bool"
  assumes "extractLine scope f n l m = Some m'" and "Q m"
    and "\<And>m v t p. Q m \<Longrightarrow> Q (addValue m v t f (n + 1) p)"
  shows "Q m'"
  using assms by (rule extractLine_rule [where Q = Q])

lemma extractLines_rule_indexed:
  fixes Q :: "nat \<Rightarrow> valueMap \<Rightarrow> bool"
  assumes "extractLines scope f n ls m = Some m'"
    and "Q n m"
    and mono: "\<And>j m. Q j m \<Longrightarrow> Q (Suc j) m"
    and step: "\<And>j m v t p. Q j m \<Longrightarrow> Q j (addValue m v t f j p)"
  shows "Q (n + length ls) m'"
  using assms(1,2)
proof (induction ls arbitrary: n m)
  case Nil
  then show ?case by simp
next
  case (Cons l ls)
  from Cons.prems(1) obtain m1 where m1: "extractLine scope f n l m = Some m1"
    and rest: "extractLines scope f (n + 1) ls m1 = Some m'"
    by (auto split: option.splits)
  have "Q (n + 1) m" using mono [OF Cons.prems(2)] by simp
  then have "Q (n + 1) m1"
    by (rule extractLine_rule_at [where Q = "Q (n + 1)", OF m1]) (rule step)
  from Cons.IH [OF rest this] show ?case by simp
qed

lemma inOrder_addValue:
  assumes "inOrder f j m"
  shows "inOrder f j (addValue m v t f j p)"
proof -
  let ?oc = "\<lparr>loc_file = f, loc_line = j, loc_property = p\<rparr>"
  have ok: "(\<forall>x \<in> set (locations e). loc_file x = f \<and> loc_line x \<le> j) \<and>
            sorted (map loc_line (locations e))"
    if "(k, e) \<in> set (addValue m v t f j p)" for k e
  proof (cases "map_of m v")
    case None
    with that have "(k, e) \<in> set (AList.update v \<lparr>ev_value = v, ev_type = t, locations = [?oc]\<rparr> m)"
      by (simp add: addValue_def)
    from in_update [OF this] assms show ?thesis by (auto simp: inOrder_def)
  next
    case (Some ex)
    then have ex: "(v, ex) \<in> set m" by (rule map_of_SomeD)
    with assms have exo: "\<forall>x \<in> set (locations ex). loc_file x = f \<and> loc_line x \<le> j"
      "sorted (map loc_line (locations ex))"
      by (auto simp: inOrder_def)
    from Some that have "(k, e) \<in> set (AList.update v (ex\<lparr>locations := locations ex @ [?oc]\<rparr>) m)"
      by (simp add: addValue_def)
    from in_update [OF this] show ?thesis
    proof
      assume "(k, e) = (v, ex\<lparr>locations := locations ex @ [?oc]\<rparr>)"
      with exo show ?thesis by (auto simp: sorted_append)
    next
      assume "(k, e) \<in> set m"
      with assms show ?thesis by (auto simp: inOrder_def)
    qed
  qed
  then show ?thesis unfolding inOrder_def by auto
qed

lemma extractValues_inOrder:
  assumes "extractValues content f scope = Some m" and "map_of m k = Some e"
  shows "(\<forall>x \<in> set (locations e). loc_file x = f) \<and> sorted (map loc_line (locations e))"
proof -
  have "inOrder f (0 + length (split NL content)) m"
  proof (rule extractLines_rule_indexed [where Q = "inOrder f", OF assms(1) [unfolded extractValues_def]])
    show "inOrder f 0 []" by (simp add: inOrder_def)
  next
    fix j m assume "inOrder f j m"
    then show "inOrder f (Suc j) m" by (fastforce simp: inOrder_def)
  next
    fix j m v t p assume "inOrder f j m"
    then show "inOrder f j (addValue m v t f j p)" by (rule inOrder_addValue)
  qed
  moreover have "(k, e) \<in> set m" using assms(2) by (rule map_of_SomeD)
  ultimately show ?thesis by (fastforce simp: inOrder_def)
qed


lemma extractAll_map_of:
  assumes "extractAll scope fs cssFiles m = Inr m'"
  shows "case map_of m k of
           Some e \<Rightarrow>
             map_of m' k =
             Some (e\<lparr>locations := locations e @ concat (map (fileOccurrences scope fs k) cssFiles)\<rparr>)
         | None \<Rightarrow>
             (case map_of m' k of
                None \<Rightarrow> concat (map (fileOccurrences scope fs k) cssFiles) = []
              | Some e' \<Rightarrow> locations e' = concat (map (fileOccurrences scope fs k) cssFiles))"
  using assms
proof (induction cssFiles arbitrary: m)
  case Nil
  then show ?case by (auto split: option.splits)
next
  case (Cons f cssFiles)
  from Cons.prems obtain content fv where c: "fs f = Some content"
    and fv: "extractValues content f scope = Some fv"
    and rest: "extractAll scope fs cssFiles (foldl mergeEntry m fv) = Inr m'"
    by (auto split: option.splits)
  let ?m1 = "foldl mergeEntry m fv"
  let ?c0 = "fileOccurrences scope fs k f"
  let ?C = "concat (map (fileOccurrences scope fs k) cssFiles)"
  have c0: "?c0 = (case map_of fv k of None \<Rightarrow> [] | Some e2 \<Rightarrow> locations e2)"
    by (simp add: fileOccurrences_def c fv)
  have m1: "map_of ?m1 k =
         (case map_of fv k of
            None \<Rightarrow> map_of m k
          | Some e2 \<Rightarrow>
              (case map_of m k of
                 None \<Rightarrow> Some e2
               | Some e \<Rightarrow> Some (e\<lparr>locations := locations e @ locations e2\<rparr>)))"
    by (rule merge_map_of [OF extractValues_distinct [OF fv]])
  note IH = Cons.IH [OF rest]
  show ?case
  proof (cases "map_of m k")
    case (Some e)
    have "map_of ?m1 k = Some (e\<lparr>locations := locations e @ ?c0\<rparr>)"
      using m1 Some c0 by (simp split: option.splits)
    with IH Some show ?thesis by simp
  next
    case None
    show ?thesis
    proof (cases "map_of fv k")
      case fvNone: None
      with m1 None have "map_of ?m1 k = None" by simp
      with IH None fvNone c0 show ?thesis by (simp split: option.splits)
    next
      case (Some e2)
      with m1 None have "map_of ?m1 k = Some e2" by simp
      with IH None Some c0 show ?thesis by simp
    qed
  qed
qed

text \<open>
  Claim C9.  \<open>addValue\<close> on a value that is present appends the occurrence and leaves the
  entry's type as it is, whatever type the later occurrence comes with.  Within a file and
  across the files, an entry once created keeps its value and type and its occurrences
  stay at the head of its list, in order (\<open>extends\<close>).  In the aggregated mapping, the
  occurrences of a value are those of the first file, then those of the second, and so
  on, each file's occurrences carrying its name and standing in the order of their lines.
\<close>

theorem category_first_write_wins:
  "(map_of m1 v = Some e1 \<longrightarrow>
      map_of (addValue m1 v t f l p) v =
      Some (e1\<lparr>locations := locations e1 @ [\<lparr>loc_file = f, loc_line = l, loc_property = p\<rparr>]\<rparr>)) \<and>
   (extractLines scope filePath n ls m2 = Some m2' \<and> map_of m2 k2 = Some e2 \<longrightarrow>
      (\<exists>e'. map_of m2' k2 = Some e' \<and> extends e2 e')) \<and>
   (extractAll scope fs cssFiles m3 = Inr m3' \<and> map_of m3 k3 = Some e3 \<longrightarrow>
      (\<exists>e'. map_of m3' k3 = Some e' \<and> extends e3 e')) \<and>
   (extractAll scope fs cssFiles [] = Inr allValues \<and> map_of allValues k = Some e \<longrightarrow>
      locations e = concat (map (fileOccurrences scope fs k) cssFiles) \<and>
      (\<forall>g. (\<forall>x \<in> set (fileOccurrences scope fs k g). loc_file x = g) \<and>
           sorted (map loc_line (fileOccurrences scope fs k g))))"
proof (intro conjI impI)
  assume "map_of m1 v = Some e1"
  then show "map_of (addValue m1 v t f l p) v =
      Some (e1\<lparr>locations := locations e1 @ [\<lparr>loc_file = f, loc_line = l, loc_property = p\<rparr>]\<rparr>)"
    by (simp add: addValue_existing)
next
  assume "extractLines scope filePath n ls m2 = Some m2' \<and> map_of m2 k2 = Some e2"
  then show "\<exists>e'. map_of m2' k2 = Some e' \<and> extends e2 e'"
    using extractLines_extends by blast
next
  assume a: "extractAll scope fs cssFiles m3 = Inr m3' \<and> map_of m3 k3 = Some e3"
  with extractAll_map_of [of scope fs cssFiles m3 m3' k3] show "\<exists>e'. map_of m3' k3 = Some e' \<and> extends e3 e'"
    by (simp add: extends_def)
next
  assume a: "extractAll scope fs cssFiles [] = Inr allValues \<and> map_of allValues k = Some e"
  with extractAll_map_of [of scope fs cssFiles "[]" allValues k]
  show "locations e = concat (map (fileOccurrences scope fs k) cssFiles)" by simp
next
  show "\<forall>g. (\<forall>x \<in> set (fileOccurrences scope fs k g). loc_file x = g) \<and>
           sorted (map loc_line (fileOccurrences scope fs k g))"
  proof
    fix g
    show "(\<forall>x \<in> set (fileOccurrences scope fs k g). loc_file x = g) \<and>
           sorted (map loc_line (fileOccurrences scope fs k g))"
      using extractValues_inOrder [of _ g scope _ k]
      by (auto simp: fileOccurrences_def split: option.splits)
  qed
qed

theorem category_first_write_wins_witness:
  "extractAll ''colors'' [''a.css'' \<mapsto> ''a:#abc'' @ [NL] @ ''b:#abc'', ''b.css'' \<mapsto> ''c:#abc''] [''a.css'', ''b.css''] []
   = Inr [(''#abc'',
       \<lparr>ev_value = ''#abc'', ev_type = Color,
         locations =
           [\<lparr>loc_file = ''a.css'', loc_line = 1, loc_property = ''a''\<rparr>,
            \<lparr>loc_file = ''a.css'', loc_line = 2, loc_property = ''b''\<rparr>,
            \<lparr>loc_file = ''b.css'', loc_line = 1, loc_property = ''c''\<rparr>]\<rparr>)] \<and>
   concat (map (fileOccurrences ''colors'' [''a.css'' \<mapsto> ''a:#abc'' @ [NL] @ ''b:#abc'', ''b.css'' \<mapsto> ''c:#abc''] ''#abc'')
             [''a.css'', ''b.css''])
   = [\<lparr>loc_file = ''a.css'', loc_line = 1, loc_property = ''a''\<rparr>,
            \<lparr>loc_file = ''a.css'', loc_line = 2, loc_property = ''b''\<rparr>,
            \<lparr>loc_file = ''b.css'', loc_line = 1, loc_property = ''c''\<rparr>] \<and>
   map_of (addValue [(''#abc'',
       \<lparr>ev_value = ''#abc'', ev_type = Color,
         locations =
           [\<lparr>loc_file = ''a.css'', loc_line = 1, loc_property = ''a''\<rparr>,
            \<lparr>loc_file = ''a.css'', loc_line = 2, loc_property = ''b''\<rparr>,
            \<lparr>loc_file = ''b.css'', loc_line = 1, loc_property = ''c''\<rparr>]\<rparr>)]
             ''#abc'' Font ''c.css'' 7 ''font-family'') ''#abc''
   = Some \<lparr>ev_value = ''#abc'', ev_type = Color,
         locations =
           [\<lparr>loc_file = ''a.css'', loc_line = 1, loc_property = ''a''\<rparr>,
            \<lparr>loc_file = ''a.css'', loc_line = 2, loc_property = ''b''\<rparr>,
            \<lparr>loc_file = ''b.css'', loc_line = 1, loc_property = ''c''\<rparr>,
            \<lparr>loc_file = ''c.css'', loc_line = 7, loc_property = ''font-family''\<rparr>]\<rparr>"
proof -
  let ?fs = "[''a.css'' \<mapsto> ''a:#abc'' @ [NL] @ ''b:#abc'', ''b.css'' \<mapsto> ''c:#abc'']"
  let ?e = "\<lparr>ev_value = ''#abc'', ev_type = Color,
         locations =
           [\<lparr>loc_file = ''a.css'', loc_line = 1, loc_property = ''a''\<rparr>,
            \<lparr>loc_file = ''a.css'', loc_line = 2, loc_property = ''b''\<rparr>,
            \<lparr>loc_file = ''b.css'', loc_line = 1, loc_property = ''c''\<rparr>]\<rparr>"
  let ?all = "[(''#abc'', ?e)]"
  have a: "extractAll ''colors'' ?fs [''a.css'', ''b.css''] [] = Inr ?all"
    by code_simp
  have b: "map_of ?all ''#abc'' = Some ?e" by simp
  note w = category_first_write_wins [where ?m1.0 = ?all and v = "''#abc''" and ?e1.0 = ?e
      and t = Font and f = "''c.css''" and l = 7 and p = "''font-family''"
      and scope = "''colors''" and fs = ?fs and cssFiles = "[''a.css'', ''b.css'']"
      and allValues = ?all and k = "''#abc''" and e = ?e]
  from w a b have "locations ?e =
      concat (map (fileOccurrences ''colors'' ?fs ''#abc'') [''a.css'', ''b.css''])"
    by blast
  moreover from w b have "map_of (addValue ?all ''#abc'' Font ''c.css'' 7 ''font-family'') ''#abc'' =
      Some (?e\<lparr>locations := locations ?e @
              [\<lparr>loc_file = ''c.css'', loc_line = 7, loc_property = ''font-family''\<rparr>]\<rparr>)"
    by blast
  ultimately show ?thesis using a by simp
qed

subsection \<open>What a match consumes\<close>

lemma consume_Nil [simp]: "consume [] st = st"
  by (simp add: consume_def)

lemma consume_append: "consume ys (consume xs st) = consume (xs @ ys) st"
  by (simp add: consume_def add.commute)

lemma consume_fields [simp]:
  "rest (consume xs st) = drop (length xs) (rest st)"
  "acc (consume xs st) = rev xs @ acc st"
  "caps (consume xs st) = caps st"
  "prev (consume xs st) = (if xs = [] then prev st else Some (last xs))"
  by (simp_all add: consume_def)

lemma atom_consume:
  "st' \<in> set (ends ic (Atom neg items) st) \<longleftrightarrow>
     (\<exists>c cs. rest st = c # cs \<and> inClass ic neg items c \<and> st' = consume [c] st)"
  by (cases "rest st") (auto simp: consume_def)

declare ends.simps(2) [simp del]

lemma exactly_atom:
  "st' \<in> set (exactly (ends ic (Atom neg items)) k st) \<longleftrightarrow>
     (\<exists>xs. length xs = k \<and> prefix xs (rest st) \<and> (\<forall>c \<in> set xs. inClass ic neg items c) \<and>
           st' = consume xs st)"
proof (induction k arbitrary: st)
  case 0
  show ?case by auto
next
  case (Suc k)
  show ?case
  proof
    assume "st' \<in> set (exactly (ends ic (Atom neg items)) (Suc k) st)"
    then obtain st1 where a: "st1 \<in> set (ends ic (Atom neg items) st)"
      and b: "st' \<in> set (exactly (ends ic (Atom neg items)) k st1)" by auto
    from a obtain c cs where c: "rest st = c # cs" "inClass ic neg items c" "st1 = consume [c] st"
      unfolding atom_consume by blast
    from b Suc.IH [of st1] obtain xs where xs: "length xs = k" "prefix xs (rest st1)"
      "\<forall>c \<in> set xs. inClass ic neg items c" "st' = consume xs st1" by blast
    from c xs have "length (c # xs) = Suc k \<and> prefix (c # xs) (rest st) \<and>
        (\<forall>d \<in> set (c # xs). inClass ic neg items d) \<and> st' = consume (c # xs) st"
      by (simp add: consume_append)
    then show "\<exists>xs. length xs = Suc k \<and> prefix xs (rest st) \<and>
        (\<forall>c \<in> set xs. inClass ic neg items c) \<and> st' = consume xs st" by blast
  next
    assume "\<exists>xs. length xs = Suc k \<and> prefix xs (rest st) \<and>
        (\<forall>c \<in> set xs. inClass ic neg items c) \<and> st' = consume xs st"
    then obtain c xs where xs: "length xs = k" "prefix (c # xs) (rest st)"
      "inClass ic neg items c" "\<forall>d \<in> set xs. inClass ic neg items d" "st' = consume (c # xs) st"
      by (auto simp: length_Suc_conv)
    from xs(2) obtain cs where cs: "rest st = c # cs" "prefix xs cs"
      by (cases "rest st") auto
    let ?st1 = "consume [c] st"
    have "?st1 \<in> set (ends ic (Atom neg items) st)"
      unfolding atom_consume using cs xs(3) by blast
    moreover have "st' \<in> set (exactly (ends ic (Atom neg items)) k ?st1)"
      unfolding Suc.IH using xs cs by (auto simp: consume_append intro!: exI [of _ xs])
    ultimately show "st' \<in> set (exactly (ends ic (Atom neg items)) (Suc k) st)" by auto
  qed
qed

lemma many_atom:
  "st' \<in> set (many (ends ic (Atom neg items)) n st) \<longleftrightarrow>
     (\<exists>xs. length xs \<le> n \<and> prefix xs (rest st) \<and> (\<forall>c \<in> set xs. inClass ic neg items c) \<and>
           st' = consume xs st)"
proof (induction n arbitrary: st)
  case 0
  show ?case by auto
next
  case (Suc n)
  show ?case
  proof
    assume "st' \<in> set (many (ends ic (Atom neg items)) (Suc n) st)"
    then consider (stop) "st' = st"
      | (go) st1 where "st1 \<in> set (ends ic (Atom neg items) st)"
          "st' \<in> set (many (ends ic (Atom neg items)) n st1)" by auto
    then show "\<exists>xs. length xs \<le> Suc n \<and> prefix xs (rest st) \<and>
        (\<forall>c \<in> set xs. inClass ic neg items c) \<and> st' = consume xs st"
    proof cases
      case stop
      then show ?thesis by (intro exI [of _ "[]"]) simp
    next
      case go
      from go(1) obtain c cs where c: "rest st = c # cs" "inClass ic neg items c"
        "st1 = consume [c] st" unfolding atom_consume by blast
      from go(2) Suc.IH [of st1] obtain xs where xs: "length xs \<le> n" "prefix xs (rest st1)"
        "\<forall>c \<in> set xs. inClass ic neg items c" "st' = consume xs st1" by blast
      from c xs show ?thesis
        by (intro exI [of _ "c # xs"]) (simp add: consume_append)
    qed
  next
    assume "\<exists>xs. length xs \<le> Suc n \<and> prefix xs (rest st) \<and>
        (\<forall>c \<in> set xs. inClass ic neg items c) \<and> st' = consume xs st"
    then obtain xs where xs: "length xs \<le> Suc n" "prefix xs (rest st)"
      "\<forall>c \<in> set xs. inClass ic neg items c" "st' = consume xs st" by blast
    show "st' \<in> set (many (ends ic (Atom neg items)) (Suc n) st)"
    proof (cases xs)
      case Nil
      with xs show ?thesis by simp
    next
      case (Cons c ys)
      with xs(2) obtain cs where cs: "rest st = c # cs" "prefix ys cs"
        by (cases "rest st") auto
      let ?st1 = "consume [c] st"
      have 1: "?st1 \<in> set (ends ic (Atom neg items) st)"
        unfolding atom_consume using cs xs(3) Cons by auto
      have 2: "length (rest ?st1) < length (rest st)" using cs by simp
      have 3: "st' \<in> set (many (ends ic (Atom neg items)) n ?st1)"
        unfolding Suc.IH using xs cs Cons
        by (auto simp: consume_append intro!: exI [of _ ys])
      from 1 2 3 show ?thesis by auto
    qed
  qed
qed

lemma rep_atom:
  assumes "case hi of None \<Rightarrow> True | Some h \<Rightarrow> lo \<le> h"
  shows "st' \<in> set (ends ic (Rep lo hi (Atom neg items)) st) \<longleftrightarrow>
     (\<exists>xs. lo \<le> length xs \<and> (case hi of None \<Rightarrow> True | Some h \<Rightarrow> length xs \<le> h) \<and>
           prefix xs (rest st) \<and> (\<forall>c \<in> set xs. inClass ic neg items c) \<and> st' = consume xs st)"
    (is "?L \<longleftrightarrow> ?R")
proof
  assume ?L
  then obtain st1 where a: "st1 \<in> set (exactly (ends ic (Atom neg items)) lo st)"
    and b: "st' \<in> set (many (ends ic (Atom neg items))
              (case hi of None \<Rightarrow> length (rest st) | Some h \<Rightarrow> h - lo) st1)" by auto
  from a obtain xs where xs: "length xs = lo" "prefix xs (rest st)"
    "\<forall>c \<in> set xs. inClass ic neg items c" "st1 = consume xs st"
    unfolding exactly_atom by blast
  from b obtain ys where ys:
    "length ys \<le> (case hi of None \<Rightarrow> length (rest st) | Some h \<Rightarrow> h - lo)"
    "prefix ys (rest st1)" "\<forall>c \<in> set ys. inClass ic neg items c" "st' = consume ys st1"
    unfolding many_atom by blast
  from xs ys have "prefix (xs @ ys) (rest st)"
    by (auto simp: prefix_def)
  with xs ys assms show ?R
    by (intro exI [of _ "xs @ ys"]) (auto simp: consume_append split: option.splits)
next
  assume ?R
  then obtain zs where zs: "lo \<le> length zs" "case hi of None \<Rightarrow> True | Some h \<Rightarrow> length zs \<le> h"
    "prefix zs (rest st)" "\<forall>c \<in> set zs. inClass ic neg items c" "st' = consume zs st" by blast
  let ?xs = "take lo zs" and ?ys = "drop lo zs"
  let ?st1 = "consume ?xs st"
  have "prefix ?xs (rest st)"
    using prefix_order.trans [OF take_is_prefix zs(3)] .
  then have 1: "?st1 \<in> set (exactly (ends ic (Atom neg items)) lo st)"
    unfolding exactly_atom using zs
    by (intro exI [of _ ?xs]) (auto dest: in_set_takeD)
  have len: "length zs \<le> length (rest st)" using zs(3) by (rule prefix_length_le)
  have 2: "st' \<in> set (many (ends ic (Atom neg items))
              (case hi of None \<Rightarrow> length (rest st) | Some h \<Rightarrow> h - lo) ?st1)"
    unfolding many_atom using zs len
    by (intro exI [of _ ?ys])
       (auto simp: consume_append prefix_def split: option.splits dest: in_set_dropD)
  from 1 2 show ?L by auto
qed

subsection \<open>The matches of a loop\<close>

lemma seq_iff:
  "st' \<in> set (ends ic (Seq a b) st) \<longleftrightarrow> (\<exists>st1 \<in> set (ends ic a st). st' \<in> set (ends ic b st1))"
  by auto

lemma execAll_member:
  "execAll ic r p s = Some ms \<Longrightarrow> m \<in> set ms \<Longrightarrow>
   \<exists>p' s' st sts. ends ic r (start p' s') = st # sts \<and> m = toMatch st"
proof (induction s arbitrary: p ms rule: length_induct)
  case (1 s)
  show ?case
  proof (cases "ends ic r (start p s)")
    case Nil
    show ?thesis
    proof (cases s)
      case Nil
      with \<open>ends ic r (start p s) = []\<close> 1 show ?thesis by (simp add: execAll.simps)
    next
      case (Cons c cs)
      with Nil 1(2) have "execAll ic r (Some c) cs = Some ms" by (simp add: execAll.simps)
      with 1(1,3) Cons show ?thesis by (metis length_Cons lessI)
    qed
  next
    case (Cons st sts)
    with 1(2) obtain ms' where lt: "length (rest st) < length s"
      and ms': "execAll ic r (prev st) (rest st) = Some ms'" and ms: "ms = toMatch st # ms'"
      by (auto simp: execAll.simps split: if_splits)
    from 1(3) ms consider "m = toMatch st" | "m \<in> set ms'" by auto
    then show ?thesis
    proof cases
      case 1
      with Cons show ?thesis by blast
    next
      case 2
      with 1(1) lt ms' show ?thesis by blast
    qed
  qed
qed


subsection \<open>Hex colours\<close>









subsection \<open>Literal text, alternatives and groups\<close>

lemma CChar_class [simp]: "inClass False False [CChar c] d = (d = c)"
  by (simp add: inClass_def)

lemma ends_chr:
  "ends False (chr c) st =
     (case rest st of [] \<Rightarrow> [] | d # ds \<Rightarrow> if d = c then [consume [c] st] else [])"
  by (cases "rest st") (auto simp: chr_def ends.simps(2) consume_def)

lemma str_Cons: "str (c # v) = Seq (chr c) (str v)"
  by (simp add: str_def)

lemma ends_str:
  "ends False (str v) st = (if prefix v (rest st) then [consume v st] else [])"
proof (induction v arbitrary: st)
  case Nil
  show ?case by (simp add: str_def)
next
  case (Cons c v)
  show ?case
  proof (cases "rest st")
    case Nil
    then show ?thesis by (simp add: str_Cons ends_chr)
  next
    case (Cons d ds)
    then show ?thesis
      using Cons.IH [of "consume [c] st"]
      by (auto simp: str_Cons ends_chr consume_append)
  qed
qed

lemma alts_str:
  "st' \<in> set (ends False (alts (map str vs)) st) \<longleftrightarrow>
     (\<exists>v \<in> set vs. prefix v (rest st) \<and> st' = consume v st)"
proof (induction vs)
  case Nil
  show ?case by (simp add: atom_consume inClass_def)
next
  case (Cons v vs)
  show ?case
  proof (cases vs)
    case Nil
    then show ?thesis by (auto simp: ends_str)
  next
    case (Cons w ws)
    with Cons.IH show ?thesis by (auto simp: ends_str)
  qed
qed

lemma group_iff:
  "st' \<in> set (ends ic (Group k a) st) \<longleftrightarrow>
     (\<exists>st1 \<in> set (ends ic a (st\<lparr>acc := []\<rparr>)).
        st' = st1\<lparr>acc := acc st1 @ acc st, caps := (k, rev (acc st1)) # caps st1\<rparr>)"
  by auto

lemma opt_iff:
  "st' \<in> set (ends ic (Opt a) st) \<longleftrightarrow>
     st' = st \<or> (st' \<in> set (ends ic a st) \<and> length (rest st') < length (rest st))"
  by (auto simp: Opt_def)

subsection \<open>Spacing lengths\<close>

lemma digit_class [simp]: "inClass False False [CDigit] c = isDigit c"
  by (simp add: inClass_def)

lemma plus_digit:
  "st' \<in> set (ends False (Plus digit) st) \<longleftrightarrow>
     (\<exists>ds. ds \<noteq> [] \<and> prefix ds (rest st) \<and> (\<forall>c \<in> set ds. isDigit c) \<and> st' = consume ds st)"
  unfolding Plus_def digit_def
  by (subst rep_atom) (auto simp: Suc_le_eq)

lemma number_ends:
  assumes "st' \<in> set (ends False (seqs [Plus digit, Opt (seqs [chr (CHR ''.''), Plus digit])]) st)"
  shows "\<exists>ds fs. st' = consume (ds @ fs) st \<and> ds \<noteq> [] \<and> (\<forall>c \<in> set ds. isDigit c) \<and>
           (fs = [] \<or> (\<exists>gs. fs = CHR ''.'' # gs \<and> gs \<noteq> [] \<and> (\<forall>c \<in> set gs. isDigit c)))"
proof -
  from assms obtain st1 where 1: "st1 \<in> set (ends False (Plus digit) st)"
    and 2: "st' \<in> set (ends False (Opt (seqs [chr (CHR ''.''), Plus digit])) st1)"
    by (auto simp: seqs_def)
  from 1 obtain ds where ds: "ds \<noteq> []" "\<forall>c \<in> set ds. isDigit c" "st1 = consume ds st"
    unfolding plus_digit by blast
  from 2 consider "st' = st1" | "st' \<in> set (ends False (seqs [chr (CHR ''.''), Plus digit]) st1)"
    unfolding opt_iff by blast
  then show ?thesis
  proof cases
    case 1
    with ds show ?thesis by (intro exI [of _ ds] exI [of _ "[]"]) simp
  next
    case 2
    then obtain st2 where a: "st2 \<in> set (ends False (chr (CHR ''.'')) st1)"
      and b: "st' \<in> set (ends False (Plus digit) st2)"
      by (auto simp: seqs_def)
    from a have st2: "st2 = consume ''.'' st1"
      by (auto simp: ends_chr split: list.splits if_splits)
    from b obtain gs where gs: "gs \<noteq> []" "\<forall>c \<in> set gs. isDigit c" "st' = consume gs st2"
      unfolding plus_digit by blast
    from ds gs st2 show ?thesis
      by (intro exI [of _ ds] exI [of _ "CHR ''.'' # gs"]) (simp add: consume_append)
  qed
qed

lemma spacing_ends:
  assumes "st' \<in> set (ends False SPACING (start p s))"
  shows "\<exists>ds fs u. caps st' = [(2, u), (1, ds @ fs)] \<and> u \<in> set units \<and>
           ds \<noteq> [] \<and> (\<forall>c \<in> set ds. isDigit c) \<and>
           (fs = [] \<or> (\<exists>gs. fs = CHR ''.'' # gs \<and> gs \<noteq> [] \<and> (\<forall>c \<in> set gs. isDigit c)))"
proof -
  let ?num = "seqs [Plus digit, Opt (seqs [chr (CHR ''.''), Plus digit])]"
  let ?unit = "alts (map str [''px'', ''rem'', ''em'', ''vh'', ''vw'', ''%''])"
  from assms obtain st0 st1 st2 where
    0: "st0 \<in> set (ends False (NotBehind [CWord]) (start p s))" and
    1: "st1 \<in> set (ends False (Group 1 ?num) st0)" and
    2: "st2 \<in> set (ends False (Group 2 ?unit) st1)" and
    3: "st' \<in> set (ends False WordB st2)"
    unfolding SPACING_def seqs_def [of "[NotBehind _, _, _, _]"]
    by (auto simp del: ends.simps(3-9) simp: seq_iff)
  from 0 have st0: "st0 = start p s" by (auto split: option.splits if_splits)
  from 1 obtain n1 where n1: "n1 \<in> set (ends False ?num (st0\<lparr>acc := []\<rparr>))"
    and st1: "st1 = n1\<lparr>acc := acc n1 @ acc st0, caps := (1, rev (acc n1)) # caps n1\<rparr>"
    unfolding group_iff by blast
  from number_ends [OF n1] obtain ds fs where
    dsfs: "n1 = consume (ds @ fs) (st0\<lparr>acc := []\<rparr>)" "ds \<noteq> []" "\<forall>c \<in> set ds. isDigit c"
      "fs = [] \<or> (\<exists>gs. fs = CHR ''.'' # gs \<and> gs \<noteq> [] \<and> (\<forall>c \<in> set gs. isDigit c))"
    by blast
  have c1: "caps st1 = [(1, ds @ fs)]" using st1 dsfs(1) st0 by (simp add: start_def)
  from 2 obtain n2 where n2: "n2 \<in> set (ends False ?unit (st1\<lparr>acc := []\<rparr>))"
    and st2: "st2 = n2\<lparr>acc := acc n2 @ acc st1, caps := (2, rev (acc n2)) # caps n2\<rparr>"
    unfolding group_iff by blast
  from n2 obtain u where u: "u \<in> set units" "n2 = consume u (st1\<lparr>acc := []\<rparr>)"
    unfolding alts_str units_def by blast
  have c2: "caps st2 = [(2, u), (1, ds @ fs)]" using st2 u(2) c1 by simp
  from 3 have "st' = st2" by (auto split: if_splits)
  with c2 u(1) dsfs show ?thesis by blast
qed


lemma numIs_exact: "numIs0 0" "numIs1 1" "numIs50 50" "numIs100 100"
  by (simp_all add: numIs0_def numIs1_def numIs50_def numIs100_def)

lemma spacing_examples:
  "spacingValues ''padding: 100%;'' ''padding'' = Some []"
  "spacingValues ''padding: 1px;'' ''padding'' = Some []"
  "spacingValues ''padding: 0px;'' ''padding'' = Some []"
proof -
  have "execAll False SPACING None ''padding: 100%;'' = Some []" by code_simp
  then show "spacingValues ''padding: 100%;'' ''padding'' = Some []"
    by (simp add: spacingValues_def)
  have "execAll False SPACING None ''padding: 1px;'' =
        Some [\<lparr>whole = ''1px'', groups = [(2, ''px''), (1, ''1'')]\<rparr>]" by code_simp
  moreover have "parseFloat ''1'' = 1" by code_simp
  ultimately show "spacingValues ''padding: 1px;'' ''padding'' = Some []"
    by (simp add: spacingValues_def spacingKept_def group_def numIs_exact)
  have "execAll False SPACING None ''padding: 0px;'' =
        Some [\<lparr>whole = ''0px'', groups = [(2, ''px''), (1, ''0'')]\<rparr>]" by code_simp
  moreover have "parseFloat ''0'' = 0" by code_simp
  ultimately show "spacingValues ''padding: 0px;'' ''padding'' = Some []"
    by (simp add: spacingValues_def spacingKept_def group_def numIs_exact)
qed

text \<open>
  Claim C7.  The loop over \<open>SPACING\<close> returns.  Every value it yields is a run of digits,
  with an optional fraction, and one of the units; it is yielded only for a property name
  that matches the layout pattern, its magnitude is not 0, it is not 1 with the unit
  \<^verbatim>\<open>px\<close>, and it is neither 100 nor 50 with the unit \<^verbatim>\<open>%\<close>.  The three lines of the
  example yield nothing.
\<close>

theorem spacing_exclusions:
  "(\<exists>vs. spacingValues l p = Some vs \<and>
      (\<forall>v \<in> set vs.
         test True LAYOUT_PROPERTY p \<and>
         (\<exists>ds fs u. v = ds @ fs @ u \<and> ds \<noteq> [] \<and> (\<forall>c \<in> set ds. isDigit c) \<and>
            (fs = [] \<or> (\<exists>gs. fs = CHR ''.'' # gs \<and> gs \<noteq> [] \<and> (\<forall>c \<in> set gs. isDigit c))) \<and>
            u \<in> set units \<and>
            parseFloat (ds @ fs) \<noteq> 0 \<and>
            \<not> (u = ''px'' \<and> parseFloat (ds @ fs) = 1) \<and>
            \<not> (u = ''%'' \<and> (parseFloat (ds @ fs) = 100 \<or> parseFloat (ds @ fs) = 50))))) \<and>
   spacingValues ''padding: 100%;'' ''padding'' = Some [] \<and>
   spacingValues ''padding: 1px;'' ''padding'' = Some [] \<and>
   spacingValues ''padding: 0px;'' ''padding'' = Some []"
proof -
  obtain ms where ms: "execAll False SPACING None l = Some ms"
    using execAll_total [OF consuming_patterns(5)] by blast
  then have vs: "spacingValues l p =
      Some (map (\<lambda>m. group m 1 @ group m 2) (filter (spacingKept p) ms))"
    by (simp add: spacingValues_def)
  have "test True LAYOUT_PROPERTY p \<and>
         (\<exists>ds fs u. v = ds @ fs @ u \<and> ds \<noteq> [] \<and> (\<forall>c \<in> set ds. isDigit c) \<and>
            (fs = [] \<or> (\<exists>gs. fs = CHR ''.'' # gs \<and> gs \<noteq> [] \<and> (\<forall>c \<in> set gs. isDigit c))) \<and>
            u \<in> set units \<and>
            parseFloat (ds @ fs) \<noteq> 0 \<and>
            \<not> (u = ''px'' \<and> parseFloat (ds @ fs) = 1) \<and>
            \<not> (u = ''%'' \<and> (parseFloat (ds @ fs) = 100 \<or> parseFloat (ds @ fs) = 50)))"
    if "v \<in> set (map (\<lambda>m. group m 1 @ group m 2) (filter (spacingKept p) ms))" for v
  proof -
    from that obtain m where m: "m \<in> set ms" "spacingKept p m" "v = group m 1 @ group m 2"
      by auto
    from execAll_member [OF ms m(1)] obtain p' s' st sts where
      e: "ends False SPACING (start p' s') = st # sts" and mst: "m = toMatch st" by blast
    then have "st \<in> set (ends False SPACING (start p' s'))" by simp
    from spacing_ends [OF this] obtain ds fs u where
      c: "caps st = [(2, u), (1, ds @ fs)]" "u \<in> set units" "ds \<noteq> []" "\<forall>c \<in> set ds. isDigit c"
        "fs = [] \<or> (\<exists>gs. fs = CHR ''.'' # gs \<and> gs \<noteq> [] \<and> (\<forall>c \<in> set gs. isDigit c))"
      by blast
    have g: "group m 1 = ds @ fs" "group m 2 = u"
      using c(1) mst by (simp_all add: group_def toMatch_def)
    from m(2) g have k: "\<not> numIs0 (parseFloat (ds @ fs))"
      "\<not> (u = ''%'' \<and> (numIs100 (parseFloat (ds @ fs)) \<or> numIs50 (parseFloat (ds @ fs))))"
      "\<not> (u = ''px'' \<and> numIs1 (parseFloat (ds @ fs)))" "test True LAYOUT_PROPERTY p"
      by (auto simp: spacingKept_def Let_def)
    from k(1) have n0: "parseFloat (ds @ fs) \<noteq> 0" using numIs_exact(1) by auto
    from k(3) have n1: "\<not> (u = ''px'' \<and> parseFloat (ds @ fs) = 1)" using numIs_exact(2) by auto
    from k(2) have n2: "\<not> (u = ''%'' \<and> (parseFloat (ds @ fs) = 100 \<or> parseFloat (ds @ fs) = 50))"
      using numIs_exact(3,4) by auto
    from m(3) g have "v = ds @ fs @ u" by simp
    with c k(4) n0 n1 n2 show ?thesis by blast
  qed
  with vs spacing_examples show ?thesis by blast
qed

theorem spacing_exclusions_witness:
  "spacingValues ''margin: 16px 0px 1.5rem;'' ''margin'' = Some [''16px'', ''1.5rem''] \<and>
   test True LAYOUT_PROPERTY ''margin''"
proof -
  have "execAll False SPACING None ''margin: 16px 0px 1.5rem;'' =
        Some [\<lparr>whole = ''16px'', groups = [(2, ''px''), (1, ''16'')]\<rparr>,
              \<lparr>whole = ''0px'', groups = [(2, ''px''), (1, ''0'')]\<rparr>,
              \<lparr>whole = ''1.5rem'', groups = [(2, ''rem''), (1, ''1.5'')]\<rparr>]" by code_simp
  moreover have "parseFloat ''16'' = 16" "parseFloat ''0'' = 0" "parseFloat ''1.5'' = 3 / 2"
    by code_simp+
  moreover have "test True LAYOUT_PROPERTY ''margin''" by code_simp
  ultimately have v: "spacingValues ''margin: 16px 0px 1.5rem;'' ''margin'' = Some [''16px'', ''1.5rem'']"
    by (simp add: spacingValues_def spacingKept_def group_def numIs0_def numIs1_def)
  with spacing_exclusions [of "''margin: 16px 0px 1.5rem;''" "''margin''"] show ?thesis
    by auto
qed

subsection \<open>Skipped lines\<close>

lemma start_fields [simp]:
  "rest (start p s) = s" "prev (start p s) = p" "acc (start p s) = []" "caps (start p s) = []"
  by (simp_all add: start_def)

lemma startsWith_prefix: "startsWith s v \<longleftrightarrow> prefix v s"
  by (induction s v rule: startsWith.induct) auto

lemma execFirst_str:
  "execFirst False (str v) p s \<noteq> None \<longleftrightarrow> includesStr s v"
proof (induction s arbitrary: p)
  case Nil
  show ?case by (simp add: execFirst.simps ends_str)
next
  case (Cons c cs)
  show ?case
  proof (cases "prefix v (c # cs)")
    case True
    then show ?thesis by (simp add: execFirst.simps ends_str startsWith_prefix)
  next
    case False
    with Cons.IH [of "Some c"] show ?thesis
      by (simp add: execFirst.simps ends_str startsWith_prefix)
  qed
qed

lemma hasVarRef_includes: "hasVarRef l \<longleftrightarrow> includesStr l ''var(''"
  using execFirst_str [of "''var(''" None l] by (simp add: hasVarRef_def test_def VAR_REF_def)

lemma addValue_locations:
  assumes "e \<in> set (addValue m v t f n p)" and "x \<in> set (locations (snd e))"
  shows "x = \<lparr>loc_file = f, loc_line = n, loc_property = p\<rparr> \<or>
         (\<exists>e' \<in> set m. x \<in> set (locations (snd e')))"
proof (cases "map_of m v")
  case None
  with assms(1) have "e \<in> set (AList.update v
       \<lparr>ev_value = v, ev_type = t, locations = [\<lparr>loc_file = f, loc_line = n, loc_property = p\<rparr>]\<rparr> m)"
    by (simp add: addValue_def)
  from in_update [OF this] assms(2) show ?thesis by auto
next
  case (Some ex)
  then have ex: "(v, ex) \<in> set m" by (rule map_of_SomeD)
  from Some assms(1) have "e \<in> set (AList.update v
       (ex\<lparr>locations := locations ex @ [\<lparr>loc_file = f, loc_line = n, loc_property = p\<rparr>]\<rparr>) m)"
    by (simp add: addValue_def)
  from in_update [OF this] assms(2) ex show ?thesis by force
qed

text \<open>
  Claim C3, as amended.  \<^verbatim>\<open>extractValues\<close> returns, and no occurrence that it records lies
  on a line whose trimmed form starts with \<^verbatim>\<open>--\<close>, \<^verbatim>\<open>/*\<close>, \<^verbatim>\<open>*\<close> or \<^verbatim>\<open>//\<close>, or on a line that
  contains \<^verbatim>\<open>var(\<close>: every occurrence carries the number of a line of the content that is
  none of these.
\<close>

theorem skipped_lines_not_extracted:
  "\<exists>m. extractValues content filePath scope = Some m \<and>
       (\<forall>e \<in> set m. \<forall>x \<in> set (locations (snd e)).
          1 \<le> loc_line x \<and> loc_line x \<le> length (split NL content) \<and>
          \<not> skipLine (split NL content ! (loc_line x - 1)) \<and>
          \<not> includesStr (split NL content ! (loc_line x - 1)) ''var('')"
proof -
  obtain m where m: "extractValues content filePath scope = Some m"
    using extractValues_total by blast
  let ?ls = "split NL content"
  let ?P = "\<lambda>x. 1 \<le> loc_line x \<and> loc_line x \<le> length ?ls \<and>
          \<not> skipLine (?ls ! (loc_line x - 1)) \<and> \<not> includesStr (?ls ! (loc_line x - 1)) ''var(''"
  let ?Q = "\<lambda>m::valueMap. \<forall>e \<in> set m. \<forall>x \<in> set (locations (snd e)). ?P x"
  have "?Q m"
  proof (rule extractLines_rule [where Q = ?Q, OF m [unfolded extractValues_def]])
    show "?Q []" by simp
  next
    fix k v t p i
    assume Q: "?Q k" and i: "i < length ?ls" "\<not> skipLine (?ls ! i)" "\<not> hasVarRef (?ls ! i)"
    show "?Q (addValue k v t filePath (0 + i + 1) p)"
    proof (intro ballI)
      fix e x
      assume "e \<in> set (addValue k v t filePath (0 + i + 1) p)" "x \<in> set (locations (snd e))"
      from addValue_locations [OF this]
      show "?P x"
      proof
        assume "x = \<lparr>loc_file = filePath, loc_line = 0 + i + 1, loc_property = p\<rparr>"
        with i show ?thesis by (simp add: hasVarRef_includes)
      next
        assume "\<exists>e' \<in> set k. x \<in> set (locations (snd e'))"
        with Q show ?thesis by blast
      qed
    qed
  qed
  with m show ?thesis by blast
qed

theorem skipped_lines_not_extracted_witness:
  "extractValues (''--brand: #abc;'' @ [NL] @ ''a:#abc'') ''a.css'' ''colors''
   = Some [(''#abc'', \<lparr>ev_value = ''#abc'', ev_type = Color,
              locations = [\<lparr>loc_file = ''a.css'', loc_line = 2, loc_property = ''a''\<rparr>]\<rparr>)] \<and>
   skipLine (split NL (''--brand: #abc;'' @ [NL] @ ''a:#abc'') ! 0) \<and>
   \<not> skipLine (split NL (''--brand: #abc;'' @ [NL] @ ''a:#abc'') ! (2 - 1))"
proof -
  have a: "extractValues (''--brand: #abc;'' @ [NL] @ ''a:#abc'') ''a.css'' ''colors''
   = Some [(''#abc'', \<lparr>ev_value = ''#abc'', ev_type = Color,
              locations = [\<lparr>loc_file = ''a.css'', loc_line = 2, loc_property = ''a''\<rparr>]\<rparr>)]"
    by code_simp
  have b: "skipLine (split NL (''--brand: #abc;'' @ [NL] @ ''a:#abc'') ! 0)" by code_simp
  from skipped_lines_not_extracted [of "''--brand: #abc;'' @ [NL] @ ''a:#abc''" "''a.css''" "''colors''"]
    a b show ?thesis by simp
qed

text \<open>
  The claim as stated fails: the substitution runs over the whole text of the file.  In a
  file whose first line declares the custom property \<^verbatim>\<open>--brand: #abc;\<close> and whose next two
  lines use \<^verbatim>\<open>#abc\<close>, the run rewrites the first line as well.
\<close>

theorem rewriter_skips_nothing_counterexample:
  "skipLine ''--brand: #abc;'' \<and>
   (case main \<lparr>opt_dryRun = False, opt_min = 2, opt_scope = ''colors'', opt_prefix = ''cv'',
               opt_json = False\<rparr>
          [''a.css'']
          [''a.css'' \<mapsto> ''--brand: #abc;'' @ [NL] @ ''a:#abc'' @ [NL] @ ''b:#abc'']
    of Inr (out, fs') \<Rightarrow> map_option (split NL) (fs' ''a.css'') | Inl err \<Rightarrow> None)
   = Some ['':root {'', ''  /* Colors */'', ''  --cv-color-1: #abc;'', ''}'', '''',
           ''--brand: var(--cv-color-1);'', ''a:var(--cv-color-1)'', ''b:var(--cv-color-1)'']"
  by code_simp

subsection \<open>Escaping\<close>

lemma class_chars: "inClass False False (map CChar xs) c \<longleftrightarrow> c \<in> set xs"
  by (induction xs) (auto simp: inClass_def)

lemma escaped_set: "set (''.*+?^${}()|[]'' @ [BSLASH]) = set syntaxChars"
  by (auto simp: syntaxChars_def)

lemma expand_escape: "expand (BSLASH # ''$&'') [c] pre post = [BSLASH, c]"
  by (simp add: BSLASH_def)

lemma ends_ESCAPED:
  "ends False ESCAPED st =
     (case rest st of
        [] \<Rightarrow> []
      | c # cs \<Rightarrow>
          if c \<in> set syntaxChars
          then [st\<lparr>prev := Some c, acc := c # acc st, rest := cs\<rparr>] else [])"
  by (simp only: ESCAPED_def ends.simps(2) class_chars escaped_set)

lemma escapeRegex_chars: "replaceAll False ESCAPED (BSLASH # ''$&'') pre v = concat (map escapeChar v)"
proof (induction v arbitrary: pre)
  case Nil
  show ?case by (simp add: replaceAll.simps ends_ESCAPED)
next
  case (Cons c v)
  show ?case
  proof (cases "c \<in> set syntaxChars")
    case True
    with Cons.IH [of "pre @ [c]"] show ?thesis
      by (simp add: replaceAll.simps [of _ _ _ _ "c # v"] ends_ESCAPED escapeChar_def BSLASH_def)
  next
    case False
    with Cons.IH [of "pre @ [c]"] show ?thesis
      by (simp add: replaceAll.simps [of _ _ _ _ "c # v"] ends_ESCAPED escapeChar_def)
  qed
qed

lemma parsePattern_escaped: "parsePattern (concat (map escapeChar v)) = Some (str v)"
proof (induction v)
  case Nil
  show ?case by (simp add: str_def)
next
  case (Cons c v)
  let ?r = "concat (map escapeChar v)"
  show ?case
  proof (cases "c \<in> set syntaxChars")
    case True
    then have "concat (map escapeChar (c # v)) = BSLASH # c # ?r" by (simp add: escapeChar_def)
    with True Cons.IH show ?thesis by (simp add: str_Cons)
  next
    case False
    then have nb: "c \<noteq> BSLASH" by (auto simp: syntaxChars_def)
    from False have e: "concat (map escapeChar (c # v)) = c # ?r" by (simp add: escapeChar_def)
    have "parsePattern (c # ?r) = Some (Seq (chr c) (str v))"
    proof (cases ?r)
      case Nil
      then have "v = []" by (cases v) (auto simp: escapeChar_def split: if_splits)
      with False Nil show ?thesis by (simp add: str_def)
    next
      case (Cons d t)
      have "parsePattern (c # d # t) = map_option (Seq (chr c)) (parsePattern (d # t))"
        using False nb by simp
      with Cons Cons.IH show ?thesis by simp
    qed
    with e show ?thesis by (simp only: str_Cons)
  qed
qed

lemma escapeRegex_sound: "parsePattern (escapeRegex v) = Some (str v)"
  by (simp add: escapeRegex_def escapeRegex_chars parsePattern_escaped)


lemma expand_plain: "CHR ''$'' \<notin> set t \<Longrightarrow> expand t m pre post = t"
  by (induction t m pre post rule: expand.induct) auto

lemma literal_replace:
  assumes "v \<noteq> []" and "CHR ''$'' \<notin> set t"
  shows "replaceAll False (str v) t pre s =
         (if prefix v s
          then t @ replaceAll False (str v) t (pre @ v) (drop (length v) s)
          else (case s of [] \<Rightarrow> [] | c # cs \<Rightarrow> c # replaceAll False (str v) t (pre @ [c]) cs))"
proof (cases "prefix v s")
  case True
  with assms(1) have "length (drop (length v) s) < length s"
    by (cases s) (auto simp: prefix_def)
  with True assms show ?thesis
    by (subst replaceAll.simps) (simp add: ends_str expand_plain)
next
  case False
  then show ?thesis by (subst replaceAll.simps) (simp add: ends_str)
qed

text \<open>
  With a \<^verbatim>\<open>$\<close> in the name the text written is not \<^verbatim>\<open>var(name)\<close>: \<^verbatim>\<open>replace\<close> substitutes in
  its template, where the name stands unescaped.  With the prefix \<^verbatim>\<open>$&\<close> the name is
  \<^verbatim>\<open>--$&-color-1\<close>, which the root block declares, and the two occurrences of \<^verbatim>\<open>#abc\<close>
  become \<^verbatim>\<open>var(--#abc-color-1)\<close>.
\<close>

lemma dollar_in_prefix:
  "(case main \<lparr>opt_dryRun = False, opt_min = 2, opt_scope = ''colors'', opt_prefix = ''$&'',
               opt_json = False\<rparr>
          [''a.css''] [''a.css'' \<mapsto> ''a:#abc'' @ [NL] @ ''b:#abc'']
    of Inr (Applied r n, fs') \<Rightarrow> (rep_names r, map_option (split NL) (fs' ''a.css''))
     | _ \<Rightarrow> ([], None))
   = ([(''#abc'', ''--$&-color-1'')],
      Some ['':root {'', ''  /* Colors */'', ''  --$&-color-1: #abc;'', ''}'', '''',
            ''a:var(--#abc-color-1)'', ''b:var(--#abc-color-1)''])"
  by code_simp

text \<open>
  Claim C5.  The substitution looks for the normalised value, letter for letter, while
  the classifier had lowered the case of what it found.  In a file that holds \<^verbatim>\<open>#abc\<close> twice
  and \<^verbatim>\<open>#ABC\<close> twice the value \<^verbatim>\<open>#abc\<close> is selected with four occurrences and two
  replacements are made.  Over the rewritten text \<^verbatim>\<open>extractValues\<close> yields \<^verbatim>\<open>#abc\<close> again, on
  the two lines that were left as they were, and a second run with the same options selects
  it, finds its text in the declaration of the root block only and rewrites that
  declaration.
\<close>

theorem rerun_finds_replaced_literal:
  "(case main \<lparr>opt_dryRun = False, opt_min = 2, opt_scope = ''colors'', opt_prefix = ''cv'',
               opt_json = False\<rparr>
          [''a.css'']
          [''a.css'' \<mapsto> ''a:#abc'' @ [NL] @ ''b:#abc'' @ [NL] @ ''c:#ABC'' @ [NL] @ ''d:#ABC'']
    of Inr (Applied r n, fs') \<Rightarrow>
         (rep_names r, n, map_option (split NL) (fs' ''a.css''),
          map_option (map (\<lambda>e. (fst e, map loc_line (locations (snd e)))))
            (Option.bind (fs' ''a.css'') (\<lambda>c. extractValues c ''a.css'' ''colors'')),
          (case main \<lparr>opt_dryRun = False, opt_min = 2, opt_scope = ''colors'',
                      opt_prefix = ''cv'', opt_json = False\<rparr> [''a.css''] fs'
           of Inr (Applied r2 n2, fs2) \<Rightarrow>
                (rep_names r2, n2, map_option (split NL) (fs2 ''a.css''))
            | _ \<Rightarrow> ([], 0, None)))
     | _ \<Rightarrow> ([], 0, None, None, [], 0, None))
   = ([(''#abc'', ''--cv-color-1'')], 2,
      Some ['':root {'', ''  /* Colors */'', ''  --cv-color-1: #abc;'', ''}'', '''',
            ''a:var(--cv-color-1)'', ''b:var(--cv-color-1)'', ''c:#ABC'', ''d:#ABC''],
      Some [(''#abc'', [8, 9])],
      [(''#abc'', ''--cv-color-1'')], 1,
      Some ['':root {'', ''  /* Colors */'', ''  --cv-color-1: var(--cv-color-1);'', ''}'', '''',
            ''a:var(--cv-color-1)'', ''b:var(--cv-color-1)'', ''c:#ABC'', ''d:#ABC''])"
  by code_simp

subsection \<open>The error branches of the model\<close>

lemma split_nonempty: "split sep s \<noteq> []"
  by (induction s) (auto split: list.splits)

lemma extractAll_returns:
  "extractAll scope fs cssFiles m \<noteq> Inl NeverReturns \<and>
   extractAll scope fs cssFiles m \<noteq> Inl PatternNotRead"
proof (induction cssFiles arbitrary: m)
  case Nil
  show ?case by simp
next
  case (Cons f cssFiles)
  show ?case
  proof (cases "fs f")
    case None
    then show ?thesis by simp
  next
    case (Some content)
    obtain fv where "extractValues content f scope = Some fv"
      using extractValues_total by blast
    with Some Cons.IH show ?thesis by simp
  qed
qed

lemma replaceValues_returns: "\<exists>st'. replaceValues vm st = Inr st'"
proof (induction vm arbitrary: st)
  case Nil
  show ?case by (simp del: split_paired_Ex)
next
  case (Cons e vm)
  obtain content tot md where st: "st = (content, tot, md)" by (metis prod_cases3)
  have "\<exists>st1. replaceValue st e = Inr st1"
    unfolding st by (simp add: replaceValue_def escapeRegex_sound Let_def del: split_paired_Ex)
  then obtain st1 where "replaceValue st e = Inr st1" by blast
  with Cons.IH [of st1] show ?case by simp
qed

lemma applyAll_returns:
  "applyAll vm rb cssFiles fs tot \<noteq> Inl NeverReturns \<and>
   applyAll vm rb cssFiles fs tot \<noteq> Inl PatternNotRead"
proof (induction cssFiles arbitrary: fs tot)
  case Nil
  show ?case by simp
next
  case (Cons f cssFiles)
  show ?case
  proof (cases "fs f")
    case None
    then show ?thesis by simp
  next
    case (Some content)
    obtain c' t' md where "replaceValues vm (content, tot, False) = Inr (c', t', md)"
      using replaceValues_returns [of vm "(content, tot, False)"] by (metis prod_cases3)
    with Some Cons.IH show ?thesis by simp
  qed
qed

lemma main_returns:
  "main opts cssFiles fs \<noteq> Inl NeverReturns \<and> main opts cssFiles fs \<noteq> Inl PatternNotRead"
  using extractAll_returns [of "opt_scope opts" fs cssFiles "[]"]
        applyAll_returns [of _ _ cssFiles fs 0]
  by (auto simp: main_def Let_def split: sum.splits prod.splits)

subsection \<open>The substitution of a literal\<close>

lemma includes_sublist: "includesStr s v \<longleftrightarrow> sublist v s"
  by (induction s) (auto simp: startsWith_prefix sublist_Cons_right)

lemma matchAll_literal:
  "v \<noteq> [] \<Longrightarrow> matchAll False (str v) p s = replicate (occurrences v s) v"
proof (induction s arbitrary: p rule: length_induct)
  case (1 s)
  show ?case
  proof (cases "prefix v s")
    case True
    with 1(2) have lt: "length (drop (length v) s) < length s"
      by (cases s) (auto simp: prefix_def)
    with 1 True show ?thesis
      by (subst matchAll.simps, subst occurrences.simps) (simp add: ends_str)
  next
    case False
    show ?thesis
    proof (cases s)
      case Nil
      with False show ?thesis
        by (subst matchAll.simps, subst occurrences.simps) (simp add: ends_str)
    next
      case (Cons c cs)
      with 1 False show ?thesis
        by (subst matchAll.simps, subst occurrences.simps) (simp add: ends_str)
    qed
  qed
qed

lemma replaceAll_literal:
  assumes "v \<noteq> []" and "CHR ''$'' \<notin> set t"
  shows "replaceAll False (str v) t pre s = substitute v t s"
proof (induction s arbitrary: pre rule: length_induct)
  case (1 s)
  show ?case
  proof (cases "prefix v s")
    case True
    with assms(1) have lt: "length (drop (length v) s) < length s"
      by (cases s) (auto simp: prefix_def)
    with 1 True assms show ?thesis
      by (subst literal_replace [OF assms], subst substitute.simps) simp
  next
    case False
    show ?thesis
    proof (cases s)
      case Nil
      with False show ?thesis
        by (subst literal_replace [OF assms], subst substitute.simps) simp
    next
      case (Cons c cs)
      with 1 False show ?thesis
        by (subst literal_replace [OF assms], subst substitute.simps) simp
    qed
  qed
qed

lemma occurrences_0: "v \<noteq> [] \<Longrightarrow> occurrences v s = 0 \<longleftrightarrow> \<not> includesStr s v"
proof (induction s)
  case Nil
  then show ?case by (subst occurrences.simps) simp
next
  case (Cons c cs)
  then show ?case by (subst occurrences.simps) (simp add: startsWith_prefix)
qed

lemma substitute_absent: "\<not> includesStr s v \<Longrightarrow> substitute v w s = s"
proof (induction s)
  case Nil
  then show ?case by (subst substitute.simps) simp
next
  case (Cons c cs)
  then show ?case by (subst substitute.simps) (simp add: startsWith_prefix)
qed


lemma replaceValue_literal:
  assumes "v \<noteq> []" and "CHR ''$'' \<notin> set name"
  shows "replaceValue (content, tot, md) (v, name) =
      Inr (if occurrences v content = 0 then (content, tot, md)
           else (substitute v (''var('' @ name @ '')'') content,
                 tot + occurrences v content, True))"
proof -
  from assms(2) have t: "CHR ''$'' \<notin> set (''var('' @ name @ '')'')" by simp
  from assms(1) have r: "replaceAll False (str v) (''var('' @ name @ '')'') [] content =
      substitute v (''var('' @ name @ '')'') content"
    by (intro replaceAll_literal [OF _ t])
  from assms(1) r show ?thesis
    by (simp add: replaceValue_def escapeRegex_sound matchAll_literal Let_def)
qed

text \<open>
  One step of the replacement loop.  The pattern that \<^verbatim>\<open>new RegExp\<close> reads from the escaped
  value is the value itself, character by character: it matches where the value stands in
  the text, and there only.  When the value is not empty and the name holds no \<^verbatim>\<open>$\<close>, the
  step for the value replaces its occurrences in the text that it is given, from the left
  and without overlap, by \<^verbatim>\<open>var(name)\<close>, adds their number to the count and leaves every
  other character as it is.
\<close>

lemma replaceValue_step:
  "parsePattern (escapeRegex v) = Some (str v) \<and>
   ends False (str v) st = (if prefix v (rest st) then [consume v st] else []) \<and>
   (v \<noteq> [] \<and> CHR ''$'' \<notin> set name \<longrightarrow>
      replaceValue (content, tot, md) (v, name) =
      Inr (if occurrences v content = 0 then (content, tot, md)
           else (substitute v (''var('' @ name @ '')'') content,
                 tot + occurrences v content, True)))"
proof (intro conjI impI)
  show "parsePattern (escapeRegex v) = Some (str v)" by (rule escapeRegex_sound)
  show "ends False (str v) st = (if prefix v (rest st) then [consume v st] else [])"
    by (rule ends_str)
  assume "v \<noteq> [] \<and> CHR ''$'' \<notin> set name"
  then show "replaceValue (content, tot, md) (v, name) =
      Inr (if occurrences v content = 0 then (content, tot, md)
           else (substitute v (''var('' @ name @ '')'') content,
                 tot + occurrences v content, True))"
    using replaceValue_literal by blast
qed

lemma replaceValue_step_example:
  "''1.5rem'' \<noteq> [] \<and> CHR ''$'' \<notin> set ''--cv-spacing-1-5rem'' \<and>
   replaceValue (''a:1.5rem;b:105rem'', 0, False) (''1.5rem'', ''--cv-spacing-1-5rem'')
   = Inr (''a:var(--cv-spacing-1-5rem);b:105rem'', 1, True)"
proof -
  have o: "occurrences ''1.5rem'' ''a:1.5rem;b:105rem'' = 1" by code_simp
  have s: "substitute ''1.5rem'' (''var('' @ ''--cv-spacing-1-5rem'' @ '')'') ''a:1.5rem;b:105rem''
           = ''a:var(--cv-spacing-1-5rem);b:105rem''" by code_simp
  have h: "''1.5rem'' \<noteq> [] \<and> CHR ''$'' \<notin> set ''--cv-spacing-1-5rem''" by simp
  from replaceValue_step [of "''1.5rem''" _ "''--cv-spacing-1-5rem''" "''a:1.5rem;b:105rem''" 0 False]
    h o s
  show ?thesis by simp
qed

text \<open>
  Claim C8.  The escaping of the value does what the claim says, and the text that the
  run writes is still not the value's occurrences replaced by \<^verbatim>\<open>var(name)\<close>.  The name
  stands unescaped in the template of \<^verbatim>\<open>replace\<close>: for the font \<^verbatim>\<open>A$&B\<close>, found twice, the
  pattern is \<^verbatim>\<open>A\$&B\<close>, the name is \<^verbatim>\<open>--cv-font-a$&b\<close>, which the root block declares, and
  the text written is \<^verbatim>\<open>var(--cv-font-aA$&Bb)\<close>.  And each value is searched in the text
  that the values before it have left: with \<^verbatim>\<open>1.5px\<close> and \<^verbatim>\<open>5px\<close> selected, the second
  substitution finds \<^verbatim>\<open>5px\<close> in the name that the first one wrote, rewrites it there and
  counts it, so that six replacements are reported for four occurrences.
\<close>

theorem rewrite_alters_other_text:
  "escapeRegex ''A$&B'' = ''A'' @ [BSLASH] @ ''$&B'' \<and>
   (case main \<lparr>opt_dryRun = False, opt_min = 2, opt_scope = ''all'', opt_prefix = ''cv'',
               opt_json = False\<rparr>
          [''a.css'']
          [''a.css'' \<mapsto> ''font-family: A$&B;'' @ [NL] @ ''font-family: A$&B;'']
    of Inr (Applied r n, fs') \<Rightarrow> (rep_names r, n, map_option (split NL) (fs' ''a.css''))
     | _ \<Rightarrow> ([], 0, None))
   = ([(''A$&B'', ''--cv-font-a$&b'')], 2,
      Some ['':root {'', ''  /* Fonts */'', ''  --cv-font-a$&b: A$&B;'', ''}'', '''',
            ''font-family: var(--cv-font-aA$&Bb);'',
            ''font-family: var(--cv-font-aA$&Bb);'']) \<and>
   (case main \<lparr>opt_dryRun = False, opt_min = 2, opt_scope = ''spacing'', opt_prefix = ''cv'',
               opt_json = False\<rparr>
          [''a.css'']
          [''a.css'' \<mapsto> ''margin:1.5px'' @ [NL] @ ''padding:1.5px'' @ [NL] @
                       ''margin:5px'' @ [NL] @ ''padding:5px'']
    of Inr (Applied r n, fs') \<Rightarrow> (rep_names r, n, map_option (split NL) (fs' ''a.css''))
     | _ \<Rightarrow> ([], 0, None))
   = ([(''1.5px'', ''--cv-spacing-1-5px''), (''5px'', ''--cv-spacing-5px'')], 6,
      Some ['':root {'', ''  /* Spacing */'', ''  --cv-spacing-1-5px: 1.5px;'',
            ''  --cv-spacing-5px: 5px;'', ''}'', '''',
            ''margin:var(--cv-spacing-1-var(--cv-spacing-5px))'',
            ''padding:var(--cv-spacing-1-var(--cv-spacing-5px))'',
            ''margin:var(--cv-spacing-5px)'', ''padding:var(--cv-spacing-5px)''])"
  by code_simp

end
